theory Spec2Isabelle
  imports Main "HOL-Library.Word" "HOL-Library.Monad_Syntax"
begin

unbundle bit_operations_syntax

section \<open>Grigorchuk group engine (rogueviz/grigorchuk.cpp)\<close>

text \<open>
  A shallow embedding of the word reducer, the splitter, the word-problem decider, the
  canonical form store, the multiplier, the Cayley-layer enumerator and the lazy graph
  adapter of \<^verbatim>\<open>rogueviz/grigorchuk.cpp\<close>.

  A C++ \<^verbatim>\<open>char\<close> is an 8-bit word, so that the exclusive-or of \<^verbatim>\<open>add\<close> is the
  machine's; a \<^verbatim>\<open>std::string\<close> is a list of such characters. \<open>str\<close> reads a string
  literal as such a list.
\<close>

type_synonym cchar = "8 word"
type_synonym cstring = "cchar list"

definition str :: "string \<Rightarrow> cstring" where
  "str s = map of_char s"

abbreviation ch_a :: cchar where "ch_a \<equiv> 0x61"
abbreviation ch_b :: cchar where "ch_b \<equiv> 0x62"
abbreviation ch_c :: cchar where "ch_c \<equiv> 0x63"
abbreviation ch_d :: cchar where "ch_d \<equiv> 0x64"

subsection \<open>Word reducer: \<^verbatim>\<open>add\<close> and \<^verbatim>\<open>reduce\<close>\<close>

text \<open>
  \<^verbatim>\<open>void add(string& s, char c)\<close>: the string is passed by reference and the model
  returns the new string. \<^verbatim>\<open>s.back()\<close> is \<open>last s\<close>, read only when \<open>s\<close> is not
  empty; \<^verbatim>\<open>s.pop_back()\<close> is \<open>butlast s\<close>.
\<close>

definition add :: "cstring \<Rightarrow> cchar \<Rightarrow> cstring" where
  "add s c =
     (if length s = 0 then s @ [c]
      else if c = last s then butlast s
      else if c \<noteq> ch_a \<and> last s \<noteq> ch_a
        then butlast s @ [last s XOR c XOR ch_d XOR ch_b XOR ch_c]
      else s @ [c])"

definition reduce :: "cstring \<Rightarrow> cstring" where
  "reduce x = foldl add [] x"

subsection \<open>Splitter: \<^verbatim>\<open>split\<close>\<close>

text \<open>
  The body of the loop of \<^verbatim>\<open>split\<close> is four \<^verbatim>\<open>if\<close> statements in a row (not an
  else-if chain); \<open>split_step\<close> runs them in the source's order on the triple
  \<open>(swapped, s0, s1)\<close>.
\<close>

type_synonym splitter = "bool \<times> cstring \<times> cstring"

definition split_step :: "splitter \<Rightarrow> cchar \<Rightarrow> splitter" where
  "split_step st c =
     (let (swapped, s0, s1) = st;
          (s0, s1) = (if c = ch_b
                      then (add s0 (if swapped then ch_a else ch_c),
                            add s1 (if swapped then ch_c else ch_a))
                      else (s0, s1));
          (s0, s1) = (if c = ch_c
                      then (add s0 (if swapped then ch_a else ch_d),
                            add s1 (if swapped then ch_d else ch_a))
                      else (s0, s1));
          (s0, s1) = (if c = ch_d
                      then (if swapped then (s0, add s1 ch_b) else (add s0 ch_b, s1))
                      else (s0, s1));
          swapped = (if c = ch_a then \<not> swapped else swapped)
      in (swapped, s0, s1))"

definition split :: "cstring \<Rightarrow> splitter" where
  "split s = foldl split_step (False, [], []) s"

subsection \<open>Words over the alphabet and reduced words\<close>

definition in_abcd :: "cstring \<Rightarrow> bool" where
  "in_abcd w = list_all (\<lambda>c. c = ch_a \<or> c = ch_b \<or> c = ch_c \<or> c = ch_d) w"

definition is_bcd :: "cchar \<Rightarrow> bool" where
  "is_bcd c = (c = ch_b \<or> c = ch_c \<or> c = ch_d)"

text \<open>No two neighbours are equal, and no two neighbours are both among b, c, d.\<close>

fun adjacent_ok :: "cstring \<Rightarrow> bool" where
  "adjacent_ok (x # y # zs) = (x \<noteq> y \<and> \<not> (is_bcd x \<and> is_bcd y) \<and> adjacent_ok (y # zs))"
| "adjacent_ok _ = True"

subsection \<open>The reducer's invariant\<close>

lemma adjacent_ok_snoc2:
  "adjacent_ok (xs @ [x, y]) = (adjacent_ok (xs @ [x]) \<and> x \<noteq> y \<and> \<not> (is_bcd x \<and> is_bcd y))"
  by (induction xs rule: adjacent_ok.induct) auto

lemmas adjacent_ok_snoc3 = adjacent_ok_snoc2 [of "xs @ [w]" for xs w, simplified]

lemma adjacent_ok_append1: "adjacent_ok (xs @ [x]) \<Longrightarrow> adjacent_ok xs"
  by (induction xs rule: adjacent_ok.induct) (auto split: if_splits)

lemma in_abcd_snoc:
  "in_abcd (xs @ [c]) = (in_abcd xs \<and> (c = ch_a \<or> c = ch_b \<or> c = ch_c \<or> c = ch_d))"
  by (simp add: in_abcd_def)

lemma add_Nil: "add [] c = [c]"
  by (simp add: add_def)

lemma add_snoc:
  "add (xs @ [x]) c =
     (if c = x then xs
      else if c \<noteq> ch_a \<and> x \<noteq> ch_a then xs @ [x XOR c XOR ch_d XOR ch_b XOR ch_c]
      else xs @ [x, c])"
  by (simp add: add_def)

lemma length_add: "length (add s c) \<le> Suc (length s)"
  by (cases s rule: rev_cases) (simp_all add: add_Nil add_snoc)

lemma in_abcd_add:
  assumes "in_abcd s" "c = ch_a \<or> c = ch_b \<or> c = ch_c \<or> c = ch_d"
  shows "in_abcd (add s c)"
proof (cases s rule: rev_cases)
  case Nil
  with assms show ?thesis by (simp add: add_Nil in_abcd_def)
next
  case (snoc xs x)
  with assms have "in_abcd xs" "x = ch_a \<or> x = ch_b \<or> x = ch_c \<or> x = ch_d"
    by (simp_all add: in_abcd_snoc)
  with assms(2) snoc show ?thesis
    by (auto simp: add_snoc in_abcd_def)
qed

lemma adjacent_ok_add:
  assumes "in_abcd s" "adjacent_ok s" "c = ch_a \<or> c = ch_b \<or> c = ch_c \<or> c = ch_d"
  shows "adjacent_ok (add s c)"
proof (cases s rule: rev_cases)
  case Nil
  then show ?thesis by (simp add: add_Nil)
next
  case (snoc xs x)
  note s = snoc
  from assms s have x: "x = ch_a \<or> x = ch_b \<or> x = ch_c \<or> x = ch_d" and xs: "in_abcd xs"
    by (simp_all add: in_abcd_snoc)
  show ?thesis
  proof (cases xs rule: rev_cases)
    case Nil
    with s x assms(3) show ?thesis
      by (auto simp: add_snoc [of "[]", simplified] is_bcd_def)
  next
    case (snoc ys y)
    with xs have y: "y = ch_a \<or> y = ch_b \<or> y = ch_c \<or> y = ch_d"
      by (simp add: in_abcd_snoc)
    from assms(2) s snoc have yx: "adjacent_ok (ys @ [y])" "y \<noteq> x" "\<not> (is_bcd y \<and> is_bcd x)"
      by (simp_all add: adjacent_ok_snoc2)
    have "adjacent_ok (add ((ys @ [y]) @ [x]) c)"
      unfolding add_snoc using x y yx assms(3)
      by (auto simp: adjacent_ok_snoc2 adjacent_ok_snoc3 is_bcd_def)
    with s snoc show ?thesis by simp
  qed
qed

lemma reduce_snoc: "reduce (w @ [c]) = add (reduce w) c"
  by (simp add: reduce_def)

lemma reduce_shape:
  "in_abcd w \<Longrightarrow> in_abcd (reduce w) \<and> length (reduce w) \<le> length w \<and> adjacent_ok (reduce w)"
proof (induction w rule: rev_induct)
  case Nil
  then show ?case by (simp add: reduce_def in_abcd_def)
next
  case (snoc c w)
  then have w: "in_abcd w" and c: "c = ch_a \<or> c = ch_b \<or> c = ch_c \<or> c = ch_d"
    by (simp_all add: in_abcd_snoc)
  from snoc.IH [OF w]
  have ih: "in_abcd (reduce w)" "length (reduce w) \<le> length w" "adjacent_ok (reduce w)"
    by simp_all
  have "length (add (reduce w) c) \<le> Suc (length (reduce w))" by (rule length_add)
  with ih show ?case
    by (simp add: reduce_snoc in_abcd_add [OF ih(1) c] adjacent_ok_add [OF ih(1) ih(3) c])
qed

lemma add_reduced_snoc:
  "adjacent_ok (xs @ [c]) \<Longrightarrow> in_abcd (xs @ [c]) \<Longrightarrow> add xs c = xs @ [c]"
proof (cases xs rule: rev_cases)
  case Nil
  then show ?thesis by (simp add: add_Nil)
next
  case (snoc ys y)
  assume "adjacent_ok (xs @ [c])" "in_abcd (xs @ [c])"
  with snoc show ?thesis
    by (auto simp: add_snoc adjacent_ok_snoc2 in_abcd_def is_bcd_def)
qed

lemma reduce_fixed: "in_abcd w \<Longrightarrow> adjacent_ok w \<Longrightarrow> reduce w = w"
proof (induction w rule: rev_induct)
  case Nil
  then show ?case by (simp add: reduce_def)
next
  case (snoc c w)
  then have "in_abcd w" "adjacent_ok w"
    by (simp_all add: in_abcd_snoc adjacent_ok_append1)
  with snoc have "reduce w = w" by simp
  with snoc.prems show ?case
    by (simp add: reduce_snoc add_reduced_snoc)
qed

text \<open>
  Claim C6. For every word \<open>w\<close> over the alphabet a, b, c, d, \<open>reduce w\<close> is again a word
  over that alphabet, is no longer than \<open>w\<close>, has no two equal neighbours and no two
  neighbours that are both among b, c, d. \<open>reduce\<close> is a total function: the only partial
  operations of the source, \<^verbatim>\<open>back\<close> and \<^verbatim>\<open>pop_back\<close>, run behind the emptiness test.
\<close>

theorem reduce_output_shape:
  "in_abcd w \<Longrightarrow>
     in_abcd (reduce w) \<and> length (reduce w) \<le> length w \<and> adjacent_ok (reduce w)"
  by (rule reduce_shape)

theorem reduce_output_shape_witness:
  "in_abcd (str ''abbcadc'') \<and> reduce (str ''abbcadc'') = str ''acab'' \<and>
   in_abcd (reduce (str ''abbcadc'')) \<and>
   length (reduce (str ''abbcadc'')) \<le> length (str ''abbcadc'') \<and>
   adjacent_ok (reduce (str ''abbcadc''))"
proof -
  have h: "in_abcd (str ''abbcadc'')"
    by (simp add: str_def in_abcd_def)
  have "reduce (str ''abbcadc'') = str ''acab''"
    by (simp add: str_def reduce_def add_def)
  with h reduce_output_shape [OF h] show ?thesis by simp
qed

text \<open>
  Claim C7. Reducing a reduced word changes nothing: for every word \<open>w\<close> over a, b, c, d,
  \<open>reduce (reduce w) = reduce w\<close>.
\<close>

theorem reduce_idempotent: "in_abcd w \<Longrightarrow> reduce (reduce w) = reduce w"
  using reduce_shape [of w] by (simp add: reduce_fixed)

theorem reduce_idempotent_witness:
  "in_abcd (str ''bcdaab'') \<and> reduce (reduce (str ''bcdaab'')) = reduce (str ''bcdaab'')"
proof -
  have h: "in_abcd (str ''bcdaab'')"
    by (simp add: str_def in_abcd_def)
  from h reduce_idempotent [OF h] show ?thesis by simp
qed

subsection \<open>What the splitter does with the symbol b\<close>

lemma split_Nil: "split [] = (False, [], [])"
  by (simp add: split_def)

lemma split_snoc: "split (w @ [c]) = split_step (split w) c"
  by (simp add: split_def)

text \<open>
  Claim C2, as the code has it. Wherever a symbol b stands in the input, \<open>split\<close> appends to
  the two sides, by the reducer's \<open>add\<close>: c to \<open>s0\<close> and a to \<open>s1\<close> when the running
  swap flag is false, a to \<open>s0\<close> and c to \<open>s1\<close> when it is true; the flag stays. In
  particular \<open>split "b" = (false, "c", "a")\<close>.
\<close>

theorem split_routes_b:
  "split (w @ ch_b # v) =
     foldl split_step
       (case split w of (swapped, s0, s1) \<Rightarrow>
          (swapped, add s0 (if swapped then ch_a else ch_c),
                    add s1 (if swapped then ch_c else ch_a))) v
   \<and> split (str ''b'') = (False, str ''c'', str ''a'')"
  by (simp add: split_def split_step_def str_def add_Nil split: prod.splits)

text \<open>
  The claim as stated (a to \<open>s0\<close> and c to \<open>s1\<close> when the flag is false, so that
  \<open>split "b" = (false, "a", "c")\<close>) fails on the one-letter word b.
\<close>

theorem split_b_counterexample: "split (str ''b'') \<noteq> (False, str ''a'', str ''c'')"
  by (simp add: split_def split_step_def str_def add_Nil)

subsection \<open>Word-problem decider: \<^verbatim>\<open>empt\<close>\<close>

text \<open>
  The recursion of \<^verbatim>\<open>empt\<close> is not structural. Its termination rests on two facts about
  \<open>split\<close>: each side is at most as long as the input has symbols other than a, and an
  input without a leaves at most one symbol on each side. The measure is three times the
  length, plus a rank for the one-letter words b and c, which \<open>split\<close> sends to c and d.
\<close>

definition empt_measure :: "cstring \<Rightarrow> nat" where
  "empt_measure x = 3 * length x + (if x = [ch_b] then 2 else if x = [ch_c] then 1 else 0)"

definition short0 :: "cstring \<Rightarrow> bool" where
  "short0 s = (s = [] \<or> s = [ch_b] \<or> s = [ch_c] \<or> s = [ch_d])"

lemma split_count:
  "split w = (sw, s0, s1) \<Longrightarrow>
     sw = odd (count_list w ch_a) \<and>
     length s0 + count_list w ch_a \<le> length w \<and>
     length s1 + count_list w ch_a \<le> length w"
proof (induction w arbitrary: sw s0 s1 rule: rev_induct)
  case Nil
  then show ?case by (simp add: split_Nil)
next
  case (snoc c w)
  obtain sw' t0 t1 where sp: "split w = (sw', t0, t1)"
    by (cases "split w") auto
  note ih = snoc.IH [OF sp]
  have l0: "length (add t0 k) \<le> Suc (length t0)" for k by (rule length_add)
  have l1: "length (add t1 k) \<le> Suc (length t1)" for k by (rule length_add)
  from snoc.prems sp have "split_step (sw', t0, t1) c = (sw, s0, s1)"
    by (simp add: split_snoc)
  then show ?case
    using ih l0 [of ch_a] l0 [of ch_b] l0 [of ch_c] l0 [of ch_d]
      l1 [of ch_a] l1 [of ch_b] l1 [of ch_c] l1 [of ch_d]
    by (auto simp: split_step_def split: if_splits)
qed

lemma split_a_free:
  "ch_a \<notin> set w \<Longrightarrow> split w = (sw, s0, s1) \<Longrightarrow>
     \<not> sw \<and> short0 s0 \<and> (s1 = [] \<or> s1 = [ch_a])"
proof (induction w arbitrary: sw s0 s1 rule: rev_induct)
  case Nil
  then show ?case by (simp add: split_Nil short0_def)
next
  case (snoc c w)
  obtain sw' t0 t1 where sp: "split w = (sw', t0, t1)"
    by (cases "split w") auto
  from snoc.prems have "ch_a \<notin> set w" "c \<noteq> ch_a" by auto
  note ih = snoc.IH [OF this(1) sp]
  from snoc.prems sp have "split_step (sw', t0, t1) c = (sw, s0, s1)"
    by (simp add: split_snoc)
  then show ?case
    using ih \<open>c \<noteq> ch_a\<close>
    by (auto simp: split_step_def short0_def add_def split: if_splits)
qed

lemma split_two_a:
  assumes sp: "split x = (False, s0, s1)" and a: "ch_a \<in> set x"
  shows "length s0 + 2 \<le> length x \<and> length s1 + 2 \<le> length x"
proof -
  from a have "0 < count_list x ch_a"
    using count_list_0_iff [of x ch_a] by auto
  moreover from split_count [OF sp] have ev: "even (count_list x ch_a)"
    and l: "length s0 + count_list x ch_a \<le> length x" "length s1 + count_list x ch_a \<le> length x"
    by simp_all
  ultimately have "2 \<le> count_list x ch_a"
    by (cases "count_list x ch_a = 1") auto
  with l show ?thesis by simp
qed

lemma empt_measure_bounds:
  "3 * length x \<le> empt_measure x" "empt_measure x \<le> 3 * length x + 2"
  by (simp_all add: empt_measure_def)

lemma empt_measure_decreases:
  assumes sp: "split x = (False, s0, s1)" and ne: "x \<noteq> []" and nd: "x \<noteq> [ch_d]"
  shows "empt_measure s0 < empt_measure x \<and> empt_measure s1 < empt_measure x"
proof (cases "ch_a \<in> set x")
  case True
  from split_two_a [OF sp True] show ?thesis
    using empt_measure_bounds(1) [of x] empt_measure_bounds(2) [of s0] empt_measure_bounds(2) [of s1]
    by linarith
next
  case False
  from split_a_free [OF False sp] have s: "short0 s0" "s1 = [] \<or> s1 = [ch_a]" by simp_all
  show ?thesis
  proof (cases x)
    case Nil
    with ne show ?thesis by simp
  next
    case (Cons c y)
    show ?thesis
    proof (cases y)
      case Nil
      with Cons sp nd False show ?thesis
        by (auto simp: split_def split_step_def add_def empt_measure_def split: if_splits)
    next
      case (Cons d z)
      with \<open>x = c # y\<close> have "2 \<le> length x" by simp
      with s show ?thesis
        by (auto simp: empt_measure_def short0_def)
    qed
  qed
qed

text \<open>
  \<^verbatim>\<open>bool empt(const string& x)\<close>. The macro \<^verbatim>\<open>Split(x)\<close> runs \<open>split\<close> first; the tests
  follow in the source's order.
\<close>

function empt :: "cstring \<Rightarrow> bool" where
  "empt x =
     (case split x of (swapped, s0, s1) \<Rightarrow>
        if x = [] then True
        else if x = [ch_d] then False
        else if swapped then False
        else empt s0 \<and> empt s1)"
  by pat_completeness auto
termination
proof (relation "measure empt_measure")
  show "wf (measure empt_measure)" by simp
next
  fix x :: cstring and x1 x2 :: "cstring" and sw y
  assume "(sw, y) = split x" "(x1, x2) = y" "x \<noteq> []" "x \<noteq> [ch_d]" "\<not> sw"
  then have "split x = (False, x1, x2)" by (metis (full_types))
  from empt_measure_decreases [OF this \<open>x \<noteq> []\<close> \<open>x \<noteq> [ch_d]\<close>]
  show "(x1, x) \<in> measure empt_measure" by simp
next
  fix x :: cstring and x1 x2 :: "cstring" and sw y
  assume "(sw, y) = split x" "(x1, x2) = y" "x \<noteq> []" "x \<noteq> [ch_d]" "\<not> sw"
  then have "split x = (False, x1, x2)" by (metis (full_types))
  from empt_measure_decreases [OF this \<open>x \<noteq> []\<close> \<open>x \<noteq> [ch_d]\<close>]
  show "(x2, x) \<in> measure empt_measure" by simp
qed

text \<open>
  The depth of the recursion of \<open>empt\<close>: the number of nested calls below the call on
  \<open>x\<close>. The source's \<^verbatim>\<open>&&\<close> runs \<^verbatim>\<open>empt(s1)\<close> only when \<^verbatim>\<open>empt(s0)\<close> returned true.
\<close>

function empt_depth :: "cstring \<Rightarrow> nat" where
  "empt_depth x =
     (case split x of (swapped, s0, s1) \<Rightarrow>
        if x = [] then 0
        else if x = [ch_d] then 0
        else if swapped then 0
        else Suc (if empt s0 then max (empt_depth s0) (empt_depth s1) else empt_depth s0))"
  by pat_completeness auto
termination
proof (relation "measure empt_measure")
  show "wf (measure empt_measure)" by simp
next
  fix x :: cstring and x1 x2 :: "cstring" and sw y
  assume "(sw, y) = split x" "(x1, x2) = y" "x \<noteq> []" "x \<noteq> [ch_d]" "\<not> sw"
  then have "split x = (False, x1, x2)" by (metis (full_types))
  from empt_measure_decreases [OF this \<open>x \<noteq> []\<close> \<open>x \<noteq> [ch_d]\<close>]
  show "(x1, x) \<in> measure empt_measure" by simp
next
  fix x :: cstring and x1 x2 :: "cstring" and sw y
  assume "(sw, y) = split x" "(x1, x2) = y" "x \<noteq> []" "x \<noteq> [ch_d]" "\<not> sw"
  then have "split x = (False, x1, x2)" by (metis (full_types))
  from empt_measure_decreases [OF this \<open>x \<noteq> []\<close> \<open>x \<noteq> [ch_d]\<close>]
  show "(x2, x) \<in> measure empt_measure" by simp
next
  fix x :: cstring and x1 x2 :: "cstring" and sw y
  assume "(sw, y) = split x" "(x1, x2) = y" "x \<noteq> []" "x \<noteq> [ch_d]" "\<not> sw"
  then have "split x = (False, x1, x2)" by (metis (full_types))
  from empt_measure_decreases [OF this \<open>x \<noteq> []\<close> \<open>x \<noteq> [ch_d]\<close>]
  show "(x1, x) \<in> measure empt_measure" by simp
qed

declare empt.simps [simp del] empt_depth.simps [simp del]

lemma split_b: "split [ch_b] = (False, [ch_c], [ch_a])"
  by (simp add: split_def split_step_def add_def)

lemma split_c: "split [ch_c] = (False, [ch_d], [ch_a])"
  by (simp add: split_def split_step_def add_def)

lemma split_a: "split [ch_a] = (True, [], [])"
  by (simp add: split_def split_step_def add_def)

lemma empt_depth_Nil: "empt_depth [] = 0"
  by (simp add: empt_depth.simps split_Nil)

lemma empt_depth_d: "empt_depth [ch_d] = 0"
  by (simp add: empt_depth.simps [of "[ch_d]"])

lemma empt_depth_a: "empt_depth [ch_a] = 0"
  by (simp add: empt_depth.simps [of "[ch_a]"] split_a)

lemma empt_d: "empt [ch_d] = False"
  by (simp add: empt.simps [of "[ch_d]"])

lemma empt_c: "empt [ch_c] = False"
  by (simp add: empt.simps [of "[ch_c]"] split_c empt_d)

lemma empt_depth_c: "empt_depth [ch_c] = 1"
  by (simp add: empt_depth.simps [of "[ch_c]"] split_c empt_d empt_depth_d)

lemma empt_depth_b: "empt_depth [ch_b] = 2"
  by (simp add: empt_depth.simps [of "[ch_b]"] split_b empt_c empt_depth_c)

lemma empt_depth_short0: "short0 s \<Longrightarrow> empt_depth s \<le> 2"
  by (auto simp: short0_def empt_depth_Nil empt_depth_b empt_depth_c empt_depth_d)

lemma empt_depth_short1: "s = [] \<or> s = [ch_a] \<Longrightarrow> empt_depth s = 0"
  by (auto simp: empt_depth_Nil empt_depth_a)

lemma empt_depth_le: "empt_depth x \<le> Suc (length x)"
proof (induction x rule: measure_induct_rule [where f = empt_measure])
  case (less x)
  obtain sw s0 s1 where sp: "split x = (sw, s0, s1)"
    by (cases "split x") auto
  show ?case
  proof (cases "x = [] \<or> x = [ch_d] \<or> sw")
    case True
    with sp show ?thesis by (auto simp: empt_depth.simps [of x])
  next
    case False
    then have ne: "x \<noteq> []" and nd: "x \<noteq> [ch_d]" and sp': "split x = (False, s0, s1)"
      using sp by auto
    have d: "empt_depth x \<le> Suc (max (empt_depth s0) (empt_depth s1))"
      using sp' ne nd by (simp add: empt_depth.simps [of x])
    show ?thesis
    proof (cases "ch_a \<in> set x")
      case True
      from split_two_a [OF sp' True]
      have l2: "length s0 + 2 \<le> length x" "length s1 + 2 \<le> length x" by simp_all
      from empt_measure_decreases [OF sp' ne nd] less.IH [of s0] less.IH [of s1]
      have "empt_depth s0 \<le> Suc (length s0)" "empt_depth s1 \<le> Suc (length s1)" by simp_all
      with l2 d show ?thesis by simp
    next
      case False
      from split_a_free [OF False sp'] have s: "short0 s0" "s1 = [] \<or> s1 = [ch_a]" by simp_all
      have d2: "empt_depth x \<le> 3"
        using d empt_depth_short0 [OF s(1)] empt_depth_short1 [OF s(2)] by simp
      show ?thesis
      proof (cases x)
        case Nil
        with ne show ?thesis by simp
      next
        case (Cons c y)
        show ?thesis
        proof (cases y)
          case Nil
          with Cons sp' nd False have "s0 = [] \<or> s0 = [ch_c] \<or> s0 = [ch_d]"
            by (auto simp: split_def split_step_def add_def split: if_splits)
          then have "empt_depth s0 \<le> 1"
            by (auto simp: empt_depth_Nil empt_depth_c empt_depth_d)
          with d empt_depth_short1 [OF s(2)] Nil Cons show ?thesis by simp
        next
          case (Cons d z)
          with \<open>x = c # y\<close> have "2 \<le> length x" by simp
          with d2 show ?thesis by simp
        qed
      qed
    qed
  qed
qed

lemma split_children_length:
  "length (fst (snd (split x))) \<le> length x \<and> length (snd (snd (split x))) \<le> length x"
proof -
  obtain sw s0 s1 where sp: "split x = (sw, s0, s1)"
    by (cases "split x") auto
  from split_count [OF sp] show ?thesis by (simp add: sp)
qed

text \<open>
  Claim C4, as the code has it. \<open>empt\<close> terminates on every word (it is a total function,
  by the termination proof above, and its recursion depth is a number). Each of the two
  words it recurses on is at most as long as the word it was called on, taken one by one,
  and the recursion depth is at most the length of the word plus one.
\<close>

theorem empt_depth_bound:
  "empt_depth w \<le> length w + 1 \<and>
   length (fst (snd (split w))) \<le> length w \<and>
   length (snd (snd (split w))) \<le> length w"
  using empt_depth_le [of w] split_children_length [of w] by simp

text \<open>
  The claim as stated fails on the one-letter word b: \<open>empt "b"\<close> calls \<open>empt "c"\<close>,
  which calls \<open>empt "d"\<close>, two nested calls for a word of length one; and the two words
  \<open>empt "b"\<close> recurses on, c and a, have the total length two.
\<close>

theorem empt_depth_counterexample:
  "\<not> empt_depth (str ''b'') \<le> length (str ''b'') \<and>
   \<not> length (fst (snd (split (str ''b'')))) + length (snd (snd (split (str ''b''))))
        \<le> length (str ''b'')"
  by (simp add: str_def empt_depth_b split_b)

subsection \<open>Canonical form store: representatives and \<^verbatim>\<open>lookup\<close>\<close>

text \<open>
  A \<^verbatim>\<open>prep\<close> is a pointer to a \<^verbatim>\<open>rep\<close>: the address of one of the five static objects
  \<^verbatim>\<open>grig_I\<close>, \<^verbatim>\<open>grig_a\<close>, \<^verbatim>\<open>grig_b\<close>, \<^verbatim>\<open>grig_c\<close>, \<^verbatim>\<open>grig_d\<close>, or the address of a key
  of the map \<^verbatim>\<open>all_reps\<close>. A \<^verbatim>\<open>std::map\<close> never moves or removes a node here, so the
  address of a key is named by the position of its insertion, \<open>Addr_node n\<close>.
\<close>

datatype prep = Addr_I | Addr_a | Addr_b | Addr_c | Addr_d | Addr_node nat

text \<open>
  \<^verbatim>\<open>struct rep\<close>. The field \<^verbatim>\<open>last\<close> is \<open>last_r\<close> here. The constructor leaves
  \<^verbatim>\<open>visited\<close> false unless told otherwise and sets \<^verbatim>\<open>len\<close> to -1.
\<close>

record rep =
  swapped :: bool
  a0 :: prep
  a1 :: prep
  last_r :: cchar
  visited :: bool
  len :: int

definition mk_rep :: "bool \<Rightarrow> prep \<Rightarrow> prep \<Rightarrow> cchar \<Rightarrow> rep" where
  "mk_rep s p0 p1 l = \<lparr>swapped = s, a0 = p0, a1 = p1, last_r = l, visited = False, len = - 1\<rparr>"

text \<open>
  The comparison operators of \<^verbatim>\<open>rep\<close> compare \<^verbatim>\<open>tie(swapped, a0, a1)\<close> only.
\<close>

definition tie :: "rep \<Rightarrow> bool \<times> prep \<times> prep" where
  "tie r = (swapped r, a0 r, a1 r)"

definition rep_eq :: "rep \<Rightarrow> rep \<Rightarrow> bool" where
  "rep_eq a b = (tie a = tie b)"

text \<open>
  The program's global state: the five static objects and the map \<^verbatim>\<open>all_reps\<close>, held as
  the list of its keys in the order of insertion (the mapped \<^verbatim>\<open>char\<close> is always 0 and
  never read). Two keys are the same key of the map when neither is less than the other,
  that is when their ties are equal.
\<close>

record state =
  grig_I :: rep
  grig_a :: rep
  grig_b :: rep
  grig_c :: rep
  grig_d :: rep
  all_reps :: "rep list"

definition init_state :: state where
  "init_state =
     \<lparr>grig_I = mk_rep False Addr_I Addr_I 0,
      grig_a = mk_rep True Addr_I Addr_I ch_a,
      grig_b = mk_rep False Addr_a Addr_c ch_b,
      grig_c = mk_rep False Addr_a Addr_d ch_c,
      grig_d = mk_rep False Addr_I Addr_b ch_d,
      all_reps = []\<rparr>"

text \<open>\<^verbatim>\<open>all_reps.find(x)\<close>: the position of the key with the tie of \<open>x\<close>, if there is one.\<close>

fun index_of :: "rep list \<Rightarrow> rep \<Rightarrow> nat option" where
  "index_of [] x = None"
| "index_of (r # rs) x = (if rep_eq r x then Some 0 else map_option Suc (index_of rs x))"

definition lookup :: "state \<Rightarrow> rep \<Rightarrow> prep \<times> state" where
  "lookup s x =
     (if rep_eq x (grig_I s) then (Addr_I, s)
      else if rep_eq x (grig_a s) then (Addr_a, s)
      else if rep_eq x (grig_b s) then (Addr_b, s)
      else if rep_eq x (grig_c s) then (Addr_c, s)
      else if rep_eq x (grig_d s) then (Addr_d, s)
      else (case index_of (all_reps s) x of
              Some i \<Rightarrow> (Addr_node i, s)
            | None \<Rightarrow> (Addr_node (length (all_reps s)), s\<lparr>all_reps := all_reps s @ [x]\<rparr>)))"

text \<open>
  Reading through a pointer. A pointer to a key that was never inserted is not a pointer
  the program can hold; reading through it is \<open>None\<close>.
\<close>

fun deref :: "state \<Rightarrow> prep \<Rightarrow> rep option" where
  "deref s Addr_I = Some (grig_I s)"
| "deref s Addr_a = Some (grig_a s)"
| "deref s Addr_b = Some (grig_b s)"
| "deref s Addr_c = Some (grig_c s)"
| "deref s Addr_d = Some (grig_d s)"
| "deref s (Addr_node i) = (if i < length (all_reps s) then Some (all_reps s ! i) else None)"

subsection \<open>Multiplier: \<^verbatim>\<open>mul\<close>\<close>

text \<open>
  \<^verbatim>\<open>prep mul(prep x, prep y)\<close>. The recursion follows pointers, so that its termination
  depends on the store: not returning is \<open>None\<close>. The braced initialiser
  \<^verbatim>\<open>rep{x->swapped, mul(...), mul(...), y->last}\<close> is evaluated left to right: the two
  products first, then \<^verbatim>\<open>y->last\<close>, read from the store as the products left it. The fields
  \<^verbatim>\<open>swapped\<close>, \<^verbatim>\<open>a0\<close>, \<^verbatim>\<open>a1\<close> are not mutable and are read once.
\<close>

partial_function (option) mul :: "state \<Rightarrow> prep \<Rightarrow> prep \<Rightarrow> (prep \<times> state) option" where
  "mul s x y =
     (if x = Addr_I then Some (y, s)
      else if y = Addr_I then Some (x, s)
      else if x = Addr_a \<and> y = Addr_a then Some (Addr_I, s)
      else if x = Addr_b \<and> y = Addr_b then Some (Addr_I, s)
      else if x = Addr_c \<and> y = Addr_c then Some (Addr_I, s)
      else if x = Addr_d \<and> y = Addr_d then Some (Addr_I, s)
      else if x = Addr_b \<and> y = Addr_c then Some (Addr_d, s)
      else if x = Addr_c \<and> y = Addr_b then Some (Addr_d, s)
      else if x = Addr_b \<and> y = Addr_d then Some (Addr_c, s)
      else if x = Addr_d \<and> y = Addr_b then Some (Addr_c, s)
      else if x = Addr_c \<and> y = Addr_d then Some (Addr_b, s)
      else if x = Addr_d \<and> y = Addr_c then Some (Addr_b, s)
      else do {
        rx \<leftarrow> deref s x;
        ry \<leftarrow> deref s y;
        if \<not> swapped ry then do {
          (p0, s1) \<leftarrow> mul s (a0 rx) (a0 ry);
          (p1, s2) \<leftarrow> mul s1 (a1 rx) (a1 ry);
          ry2 \<leftarrow> deref s2 y;
          Some (lookup s2 (mk_rep (swapped rx) p0 p1 (last_r ry2)))
        } else do {
          (p0, s1) \<leftarrow> mul s (a1 rx) (a0 ry);
          (p1, s2) \<leftarrow> mul s1 (a0 rx) (a1 ry);
          ry2 \<leftarrow> deref s2 y;
          Some (lookup s2 (mk_rep (\<not> swapped rx) p0 p1 (last_r ry2)))
        }
      })"

declare mul.simps [code]

subsection \<open>The store's invariant\<close>

text \<open>
  The five static objects keep the ties they were initialised with; the keys of
  \<^verbatim>\<open>all_reps\<close> have pairwise different ties, none of them the tie of a static object.
\<close>

definition statics_ok :: "state \<Rightarrow> bool" where
  "statics_ok s =
     (tie (grig_I s) = (False, Addr_I, Addr_I) \<and>
      tie (grig_a s) = (True, Addr_I, Addr_I) \<and>
      tie (grig_b s) = (False, Addr_a, Addr_c) \<and>
      tie (grig_c s) = (False, Addr_a, Addr_d) \<and>
      tie (grig_d s) = (False, Addr_I, Addr_b))"

definition fixed_ties :: "(bool \<times> prep \<times> prep) list" where
  "fixed_ties =
     [(False, Addr_I, Addr_I), (True, Addr_I, Addr_I), (False, Addr_a, Addr_c),
      (False, Addr_a, Addr_d), (False, Addr_I, Addr_b)]"

definition store_inv :: "state \<Rightarrow> bool" where
  "store_inv s =
     (statics_ok s \<and> distinct (map tie (all_reps s)) \<and>
      list_all (\<lambda>r. tie r \<notin> set fixed_ties) (all_reps s))"

fun valid :: "state \<Rightarrow> prep \<Rightarrow> bool" where
  "valid s (Addr_node i) = (i < length (all_reps s))"
| "valid s _ = True"

lemma index_of_Some: "index_of rs x = Some i \<Longrightarrow> i < length rs \<and> tie (rs ! i) = tie x"
  by (induction rs arbitrary: i) (auto simp: rep_eq_def split: if_splits)

lemma index_of_None: "(index_of rs x = None) = (tie x \<notin> tie ` set rs)"
  by (induction rs) (auto simp: rep_eq_def)

lemma index_of_distinct:
  "distinct (map tie rs) \<Longrightarrow> i < length rs \<Longrightarrow> tie (rs ! i) = tie x \<Longrightarrow> index_of rs x = Some i"
proof (induction rs arbitrary: i)
  case Nil
  then show ?case by simp
next
  case (Cons r rs)
  show ?case
  proof (cases i)
    case 0
    with Cons.prems show ?thesis by (simp add: rep_eq_def)
  next
    case (Suc j)
    with Cons.prems have j: "j < length rs" "tie (rs ! j) = tie x" by simp_all
    then have "tie x \<in> tie ` set rs" by (metis imageI nth_mem)
    with Cons.prems have "tie r \<noteq> tie x" by auto
    with Cons.IH [OF _ j] Cons.prems Suc show ?thesis by (simp add: rep_eq_def)
  qed
qed

lemma valid_deref: "valid s p \<Longrightarrow> \<exists>r. deref s p = Some r"
  by (cases p) simp_all

lemma deref_valid: "deref s p = Some r \<Longrightarrow> valid s p"
  by (cases p) (simp_all split: if_splits)

lemma tie_deref_inj:
  assumes "store_inv s" "deref s u = Some ru" "deref s v = Some rv" "tie ru = tie rv"
  shows "u = v"
proof -
  from assms(1) have st: "statics_ok s" and di: "distinct (map tie (all_reps s))"
    and nf: "\<And>r. r \<in> set (all_reps s) \<Longrightarrow> tie r \<notin> set fixed_ties"
    by (auto simp: store_inv_def list_all_iff)
  have node_static: "tie (all_reps s ! i) \<notin> set fixed_ties" if "i < length (all_reps s)" for i
    using nf that by simp
  show ?thesis
  proof (cases u)
    case (Addr_node i)
    note u = this
    show ?thesis
    proof (cases v)
      case (Addr_node j)
      with u assms have "i < length (all_reps s)" "j < length (all_reps s)"
        "tie (all_reps s ! i) = tie (all_reps s ! j)"
        by (auto split: if_splits)
      with di have "i = j"
        by (metis distinct_conv_nth length_map nth_map)
      with u Addr_node show ?thesis by simp
    qed (use u assms st node_static in \<open>auto simp: statics_ok_def fixed_ties_def split: if_splits\<close>)
  qed (cases v; use assms st node_static in \<open>auto simp: statics_ok_def fixed_ties_def split: if_splits\<close>)+
qed


lemma lookup_static:
  assumes "statics_ok s"
  shows "tie x = (False, Addr_I, Addr_I) \<Longrightarrow> lookup s x = (Addr_I, s)"
    and "tie x = (True, Addr_I, Addr_I) \<Longrightarrow> lookup s x = (Addr_a, s)"
    and "tie x = (False, Addr_a, Addr_c) \<Longrightarrow> lookup s x = (Addr_b, s)"
    and "tie x = (False, Addr_a, Addr_d) \<Longrightarrow> lookup s x = (Addr_c, s)"
    and "tie x = (False, Addr_I, Addr_b) \<Longrightarrow> lookup s x = (Addr_d, s)"
  using assms by (simp_all add: lookup_def rep_eq_def statics_ok_def)

lemma lookup_dynamic:
  assumes "statics_ok s" "tie x \<notin> set fixed_ties"
  shows "lookup s x =
     (case index_of (all_reps s) x of
        Some i \<Rightarrow> (Addr_node i, s)
      | None \<Rightarrow> (Addr_node (length (all_reps s)), s\<lparr>all_reps := all_reps s @ [x]\<rparr>))"
  using assms by (simp add: lookup_def rep_eq_def statics_ok_def fixed_ties_def)

lemma deref_static:
  assumes "statics_ok s"
  shows "\<exists>r. deref s Addr_I = Some r \<and> tie r = (False, Addr_I, Addr_I)"
    and "\<exists>r. deref s Addr_a = Some r \<and> tie r = (True, Addr_I, Addr_I)"
    and "\<exists>r. deref s Addr_b = Some r \<and> tie r = (False, Addr_a, Addr_c)"
    and "\<exists>r. deref s Addr_c = Some r \<and> tie r = (False, Addr_a, Addr_d)"
    and "\<exists>r. deref s Addr_d = Some r \<and> tie r = (False, Addr_I, Addr_b)"
  using assms by (simp_all add: statics_ok_def)

lemma lookup_existing:
  assumes "store_inv s" "deref s p = Some r" "tie r = tie x"
  shows "lookup s x = (p, s)"
proof -
  from assms(1) have st: "statics_ok s" and di: "distinct (map tie (all_reps s))"
    and nf: "\<And>r. r \<in> set (all_reps s) \<Longrightarrow> tie r \<notin> set fixed_ties"
    by (auto simp: store_inv_def list_all_iff)
  show ?thesis
  proof (cases p)
    case (Addr_node i)
    with assms have i: "i < length (all_reps s)" "tie (all_reps s ! i) = tie x"
      by (auto split: if_splits)
    with nf [of "all_reps s ! i"] have "tie x \<notin> set fixed_ties" by simp
    moreover from index_of_distinct [OF di i] have "index_of (all_reps s) x = Some i" .
    ultimately show ?thesis
      using Addr_node by (simp add: lookup_dynamic [OF st])
  next
    case Addr_I
    with assms deref_static(1) [OF st] lookup_static(1) [OF st, of x] show ?thesis by auto
  next
    case Addr_a
    with assms deref_static(2) [OF st] lookup_static(2) [OF st, of x] show ?thesis by auto
  next
    case Addr_b
    with assms deref_static(3) [OF st] lookup_static(3) [OF st, of x] show ?thesis by auto
  next
    case Addr_c
    with assms deref_static(4) [OF st] lookup_static(4) [OF st, of x] show ?thesis by auto
  next
    case Addr_d
    with assms deref_static(5) [OF st] lookup_static(5) [OF st, of x] show ?thesis by auto
  qed
qed

lemma lookup_post:
  assumes "store_inv s" "lookup s x = (p, s1)"
  shows "store_inv s1 \<and>
         (s1 = s \<or> s1 = s\<lparr>all_reps := all_reps s @ [x]\<rparr> \<and> p = Addr_node (length (all_reps s))) \<and>
         (\<exists>r. deref s1 p = Some r \<and> tie r = tie x)"
proof -
  from assms(1) have st: "statics_ok s" and di: "distinct (map tie (all_reps s))"
    and nf: "list_all (\<lambda>r. tie r \<notin> set fixed_ties) (all_reps s)"
    by (auto simp: store_inv_def)
  show ?thesis
  proof (cases "tie x \<in> set fixed_ties")
    case True
    then consider "tie x = (False, Addr_I, Addr_I)" | "tie x = (True, Addr_I, Addr_I)"
      | "tie x = (False, Addr_a, Addr_c)" | "tie x = (False, Addr_a, Addr_d)"
      | "tie x = (False, Addr_I, Addr_b)"
      by (auto simp: fixed_ties_def)
    then show ?thesis
    proof cases
      case 1
      with lookup_static(1) [OF st 1] deref_static(1) [OF st] assms show ?thesis by auto
    next
      case 2
      with lookup_static(2) [OF st 2] deref_static(2) [OF st] assms show ?thesis by auto
    next
      case 3
      with lookup_static(3) [OF st 3] deref_static(3) [OF st] assms show ?thesis by auto
    next
      case 4
      with lookup_static(4) [OF st 4] deref_static(4) [OF st] assms show ?thesis by auto
    next
      case 5
      with lookup_static(5) [OF st 5] deref_static(5) [OF st] assms show ?thesis by auto
    qed
  next
    case False
    note dyn = lookup_dynamic [OF st False]
    show ?thesis
    proof (cases "index_of (all_reps s) x")
      case None
      with dyn assms(2) have p: "p = Addr_node (length (all_reps s))"
        and s1: "s1 = s\<lparr>all_reps := all_reps s @ [x]\<rparr>"
        by simp_all
      from None have "tie x \<notin> tie ` set (all_reps s)" by (simp add: index_of_None)
      with di nf False st have "store_inv s1"
        by (simp add: s1 store_inv_def statics_ok_def)
      with p s1 show ?thesis by auto
    next
      case (Some i)
      with dyn assms(2) have "p = Addr_node i" "s1 = s" by simp_all
      with index_of_Some [OF Some] assms(1) show ?thesis by simp
    qed
  qed
qed

lemma deref_append:
  "deref s p = Some r \<Longrightarrow> deref (s\<lparr>all_reps := all_reps s @ new\<rparr>) p = Some r"
  by (cases p) (auto simp: nth_append split: if_splits)

text \<open>
  A run of further calls of \<open>lookup\<close>, one per candidate of the list, whatever they
  return: the store they leave.
\<close>

definition lookups :: "state \<Rightarrow> rep list \<Rightarrow> state" where
  "lookups s ys = foldl (\<lambda>s y. snd (lookup s y)) s ys"

lemma lookup_keeps:
  assumes "store_inv s" "lookup s x = (p, s1)" "deref s u = Some r"
  shows "deref s1 u = Some r"
  using lookup_post [OF assms(1,2)] assms(3) by (auto intro: deref_append)

lemma lookups_keeps:
  "store_inv s \<Longrightarrow>
     store_inv (lookups s ys) \<and> (\<forall>u r. deref s u = Some r \<longrightarrow> deref (lookups s ys) u = Some r)"
proof (induction ys arbitrary: s)
  case Nil
  then show ?case by (simp add: lookups_def)
next
  case (Cons y ys)
  obtain p s1 where l: "lookup s y = (p, s1)" by (cases "lookup s y") auto
  from lookup_post [OF Cons.prems l] have inv1: "store_inv s1" by blast
  have eq: "lookups s (y # ys) = lookups s1 ys" by (simp add: lookups_def l)
  from Cons.IH [OF inv1] lookup_keeps [OF Cons.prems l] show ?case
    unfolding eq by blast
qed

text \<open>
  Claim C1. In a store that satisfies the invariant (the initial store does, and
  \<open>lookup\<close> keeps it), let \<open>lookup\<close> return \<open>p\<close> for the candidate \<open>x\<close>, and let a later
  call, after any number of other calls of \<open>lookup\<close>, return \<open>q\<close> for the candidate
  \<open>y\<close>. Then \<open>p\<close> and \<open>q\<close> are the same pointer if and only if \<open>x\<close> and \<open>y\<close> have the
  same triple. The object \<open>p\<close> points to has the triple of \<open>x\<close>; a triple the store has
  already is given its object, with no allocation, and so is the triple of each of the five
  static objects; no call moves or changes an object an earlier pointer points to; a later
  call with an equal triple allocates nothing; and in the store the calls leave, two
  pointers are equal if and only if the triples they point to are equal.
\<close>

theorem lookup_hash_consing:
  assumes "store_inv s" "lookup s x = (p, s1)" "lookup (lookups s1 ys) y = (q, s2)"
  shows "(p = q) = (tie x = tie y) \<and>
         (\<exists>r. deref s1 p = Some r \<and> tie r = tie x) \<and>
         (\<forall>u r. deref s u = Some r \<and> tie r = tie x \<longrightarrow> p = u \<and> s1 = s) \<and>
         (tie x = tie (grig_I s) \<longrightarrow> p = Addr_I) \<and>
         (tie x = tie (grig_a s) \<longrightarrow> p = Addr_a) \<and>
         (tie x = tie (grig_b s) \<longrightarrow> p = Addr_b) \<and>
         (tie x = tie (grig_c s) \<longrightarrow> p = Addr_c) \<and>
         (tie x = tie (grig_d s) \<longrightarrow> p = Addr_d) \<and>
         (\<forall>u r. deref s u = Some r \<longrightarrow> deref s1 u = Some r) \<and>
         (\<forall>u r. deref s1 u = Some r \<longrightarrow> deref (lookups s1 ys) u = Some r \<and> deref s2 u = Some r) \<and>
         (tie x = tie y \<longrightarrow> s2 = lookups s1 ys) \<and>
         store_inv s2 \<and>
         (\<forall>u v ru rv. deref s2 u = Some ru \<and> deref s2 v = Some rv \<longrightarrow>
            (u = v) = (tie ru = tie rv))"
proof -
  let ?t = "lookups s1 ys"
  from lookup_post [OF assms(1,2)] obtain r where inv1: "store_inv s1"
    and r: "deref s1 p = Some r" "tie r = tie x"
    by blast
  from lookups_keeps [OF inv1, of ys] have invt: "store_inv ?t"
    and kt: "\<And>u r. deref s1 u = Some r \<Longrightarrow> deref ?t u = Some r" by blast+
  from lookup_post [OF invt assms(3)] obtain r' where inv2: "store_inv s2"
    and r': "deref s2 q = Some r'" "tie r' = tie y"
    by blast
  have k2: "deref s2 u = Some r0" if "deref ?t u = Some r0" for u r0
    using lookup_keeps [OF invt assms(3) that] .
  from r(1) have rt: "deref ?t p = Some r" by (rule kt)
  then have r2: "deref s2 p = Some r" by (rule k2)
  have a: "(p = q) = (tie x = tie y)"
  proof
    assume "p = q"
    with r2 r' r show "tie x = tie y" by simp
  next
    assume "tie x = tie y"
    with r have "tie r = tie y" by simp
    from lookup_existing [OF invt rt this] assms(3) show "p = q" by simp
  qed
  have same: "tie x = tie y \<longrightarrow> s2 = ?t"
  proof
    assume "tie x = tie y"
    with r have "tie r = tie y" by simp
    from lookup_existing [OF invt rt this] assms(3) show "s2 = ?t" by simp
  qed
  have present: "p = u \<and> s1 = s" if "deref s u = Some r0" "tie r0 = tie x" for u r0
    using lookup_existing [OF assms(1) that] assms(2) by simp
  have fixed: "tie x = tie r0 \<longrightarrow> p = p0" if "deref s p0 = Some r0" for p0 r0
    using present [OF that] by simp
  have k1: "\<forall>u r. deref s u = Some r \<longrightarrow> deref s1 u = Some r"
    using lookup_keeps [OF assms(1,2)] by blast
  have k12: "\<forall>u r. deref s1 u = Some r \<longrightarrow> deref ?t u = Some r \<and> deref s2 u = Some r"
    using kt k2 by blast
  have inj: "(u = v) = (tie ru = tie rv)" if "deref s2 u = Some ru" "deref s2 v = Some rv" for u v ru rv
    using tie_deref_inj [OF inv2 that] that by auto
  have pres: "\<forall>u r. deref s u = Some r \<and> tie r = tie x \<longrightarrow> p = u \<and> s1 = s"
    using present by blast
  have inj': "\<forall>u v ru rv. deref s2 u = Some ru \<and> deref s2 v = Some rv \<longrightarrow> (u = v) = (tie ru = tie rv)"
    using inj by blast
  have des: "\<exists>r. deref s1 p = Some r \<and> tie r = tie x" using r by blast
  note f = fixed [of Addr_I "grig_I s", simplified] fixed [of Addr_a "grig_a s", simplified]
    fixed [of Addr_b "grig_b s", simplified] fixed [of Addr_c "grig_c s", simplified]
    fixed [of Addr_d "grig_d s", simplified]
  show ?thesis
    by (intro conjI a des pres f k1 k12 same inv2 inj')
qed

lemma store_inv_init: "store_inv init_state"
  by (simp add: store_inv_def statics_ok_def init_state_def mk_rep_def tie_def)

theorem lookup_hash_consing_witness:
  "store_inv init_state \<and>
   lookup init_state (mk_rep True Addr_a Addr_c ch_b) =
     (Addr_node 0, init_state\<lparr>all_reps := [mk_rep True Addr_a Addr_c ch_b]\<rparr>) \<and>
   lookups (init_state\<lparr>all_reps := [mk_rep True Addr_a Addr_c ch_b]\<rparr>)
       [mk_rep True Addr_I Addr_b ch_d, mk_rep False Addr_a Addr_c ch_a] =
     init_state\<lparr>all_reps := [mk_rep True Addr_a Addr_c ch_b, mk_rep True Addr_I Addr_b ch_d]\<rparr> \<and>
   lookup (init_state\<lparr>all_reps := [mk_rep True Addr_a Addr_c ch_b, mk_rep True Addr_I Addr_b ch_d]\<rparr>)
       (mk_rep True Addr_a Addr_c ch_c) =
     (Addr_node 0,
      init_state\<lparr>all_reps := [mk_rep True Addr_a Addr_c ch_b, mk_rep True Addr_I Addr_b ch_d]\<rparr>) \<and>
   (Addr_node 0 = Addr_node 0) =
     (tie (mk_rep True Addr_a Addr_c ch_b) = tie (mk_rep True Addr_a Addr_c ch_c)) \<and>
   deref (init_state\<lparr>all_reps := [mk_rep True Addr_a Addr_c ch_b, mk_rep True Addr_I Addr_b ch_d]\<rparr>)
       (Addr_node 0) = Some (mk_rep True Addr_a Addr_c ch_b)"
proof -
  let ?x = "mk_rep True Addr_a Addr_c ch_b"
  let ?y = "mk_rep True Addr_a Addr_c ch_c"
  let ?ys = "[mk_rep True Addr_I Addr_b ch_d, mk_rep False Addr_a Addr_c ch_a]"
  let ?s1 = "init_state\<lparr>all_reps := [?x]\<rparr>"
  let ?s2 = "init_state\<lparr>all_reps := [?x, mk_rep True Addr_I Addr_b ch_d]\<rparr>"
  have l1: "lookup init_state ?x = (Addr_node 0, ?s1)"
    by (simp add: lookup_def init_state_def mk_rep_def rep_eq_def tie_def)
  have ls: "lookups ?s1 ?ys = ?s2"
    by (simp add: lookups_def lookup_def init_state_def mk_rep_def rep_eq_def tie_def)
  have l2: "lookup ?s2 ?y = (Addr_node 0, ?s2)"
    by (simp add: lookup_def init_state_def mk_rep_def rep_eq_def tie_def)
  from l2 ls have l2': "lookup (lookups ?s1 ?ys) ?y = (Addr_node 0, ?s2)" by simp
  from lookup_hash_consing [OF store_inv_init l1 l2'] store_inv_init l1 ls l2
  show ?thesis by simp
qed

subsection \<open>The values of representatives: automorphisms of the binary tree\<close>

text \<open>
  A proof device, not part of the source: the value a pointer stands for, as a finite term
  over the five static objects. \<open>pch\<close> gives the triple of a term, \<open>pmk\<close> is \<open>lookup\<close>
  on terms, \<open>pmul\<close> is \<open>mul\<close> on terms, and \<open>act\<close> is the action of a term on the
  vertices of the binary tree (lists of bits). Terms in normal form (\<open>nf\<close>) act
  differently when they are different, and \<open>act\<close> turns \<open>pmul\<close> into composition: so
  \<open>pmul\<close> is associative on normal forms.
\<close>

datatype elt = EI | EA | EB | EC | ED | EN bool elt elt

fun pch :: "elt \<Rightarrow> bool \<times> elt \<times> elt" where
  "pch EI = (False, EI, EI)"
| "pch EA = (True, EI, EI)"
| "pch EB = (False, EA, EC)"
| "pch EC = (False, EA, ED)"
| "pch ED = (False, EI, EB)"
| "pch (EN s l r) = (s, l, r)"

definition pmk :: "bool \<Rightarrow> elt \<Rightarrow> elt \<Rightarrow> elt" where
  "pmk s l r =
     (if (s, l, r) = pch EI then EI
      else if (s, l, r) = pch EA then EA
      else if (s, l, r) = pch EB then EB
      else if (s, l, r) = pch EC then EC
      else if (s, l, r) = pch ED then ED
      else EN s l r)"

definition pfast :: "elt \<Rightarrow> elt \<Rightarrow> bool" where
  "pfast x y = (x = EI \<or> y = EI \<or> (x = EA \<and> y = EA) \<or> (x \<in> {EB, EC, ED} \<and> y \<in> {EB, EC, ED}))"

lemma pch_size: "pch x = (s, l, r) \<Longrightarrow> size l \<le> size x \<and> size r \<le> size x"
  by (cases x) auto

lemma pch_size_EN: "pch (EN s' l' r') = (s, l, r) \<Longrightarrow> size l < size (EN s' l' r') \<and> size r < size (EN s' l' r')"
  by auto

function pmul :: "elt \<Rightarrow> elt \<Rightarrow> elt" where
  "pmul x y =
     (if x = EI then y
      else if y = EI then x
      else if x = EA \<and> y = EA then EI
      else if x = EB \<and> y = EB then EI
      else if x = EC \<and> y = EC then EI
      else if x = ED \<and> y = ED then EI
      else if x = EB \<and> y = EC then ED
      else if x = EC \<and> y = EB then ED
      else if x = EB \<and> y = ED then EC
      else if x = ED \<and> y = EB then EC
      else if x = EC \<and> y = ED then EB
      else if x = ED \<and> y = EC then EB
      else if \<not> fst (pch y)
        then pmk (fst (pch x)) (pmul (fst (snd (pch x))) (fst (snd (pch y))))
                               (pmul (snd (snd (pch x))) (snd (snd (pch y))))
        else pmk (\<not> fst (pch x)) (pmul (snd (snd (pch x))) (fst (snd (pch y))))
                                  (pmul (fst (snd (pch x))) (snd (snd (pch y)))))"
  by pat_completeness auto
termination
  apply (relation "measure (\<lambda>(x, y). 2 * (size x + size y) + (if x = EI \<or> y = EI then 0 else 1))")
      apply simp
  subgoal for x y by (cases x; cases y) auto
  subgoal for x y by (cases x; cases y) auto
  subgoal for x y by (cases x; cases y) auto
  subgoal for x y by (cases x; cases y) auto
  done

declare pmul.simps [simp del]

fun act :: "elt \<Rightarrow> bool list \<Rightarrow> bool list" where
  "act e [] = []"
| "act e (b # bs) = (b \<noteq> fst (pch e)) # act (if b then snd (snd (pch e)) else fst (snd (pch e))) bs"


lemma pch_pmk: "pch (pmk s l r) = (s, l, r)"
  by (simp add: pmk_def)

lemma act_pmk: "act (pmk s l r) (b # bs) = (b \<noteq> s) # act (if b then r else l) bs"
  by (simp add: pch_pmk)

lemma act_EI: "act EI v = v"
  by (induction v) auto

lemma act_EA_EA: "act EA (act EA v) = v"
  by (cases v) (auto simp: act_EI)

lemma act_klein:
  "act EB (act EB v) = v \<and> act EC (act EC v) = v \<and> act ED (act ED v) = v \<and>
   act EB (act EC v) = act ED v \<and> act EC (act EB v) = act ED v \<and>
   act EB (act ED v) = act EC v \<and> act ED (act EB v) = act EC v \<and>
   act EC (act ED v) = act EB v \<and> act ED (act EC v) = act EB v"
proof (induction v)
  case Nil
  show ?case by simp
next
  case (Cons b bs)
  then show ?case by (cases b) (simp_all add: act_EI act_EA_EA)
qed

lemma pmul_slow:
  "\<not> pfast x y \<Longrightarrow>
     pmul x y =
       (if \<not> fst (pch y)
        then pmk (fst (pch x)) (pmul (fst (snd (pch x))) (fst (snd (pch y))))
                               (pmul (snd (snd (pch x))) (snd (snd (pch y))))
        else pmk (\<not> fst (pch x)) (pmul (snd (snd (pch x))) (fst (snd (pch y))))
                                  (pmul (fst (snd (pch x))) (snd (snd (pch y)))))"
  by (subst pmul.simps) (auto simp: pfast_def)

lemma act_pmul: "act (pmul x y) v = act x (act y v)"
proof (induction x y arbitrary: v rule: pmul.induct)
  case (1 x y)
  show ?case
  proof (cases "pfast x y")
    case True
    then show ?thesis
      unfolding pfast_def
      by (elim disjE conjE insertE emptyE) (simp_all add: pmul.simps act_EI act_EA_EA act_klein)
  next
    case False
    then have nf: "x \<noteq> EI" "y \<noteq> EI" "\<not> (x = EA \<and> y = EA)" "\<not> (x = EB \<and> y = EB)"
      "\<not> (x = EC \<and> y = EC)" "\<not> (x = ED \<and> y = ED)" "\<not> (x = EB \<and> y = EC)"
      "\<not> (x = EC \<and> y = EB)" "\<not> (x = EB \<and> y = ED)" "\<not> (x = ED \<and> y = EB)"
      "\<not> (x = EC \<and> y = ED)" "\<not> (x = ED \<and> y = EC)"
      by (auto simp: pfast_def)
    show ?thesis
    proof (cases v)
      case Nil
      then show ?thesis by simp
    next
      case (Cons b bs)
      show ?thesis
      proof (cases "fst (pch y)")
        case sy: False
        have eq: "pmul x y = pmk (fst (pch x)) (pmul (fst (snd (pch x))) (fst (snd (pch y))))
                               (pmul (snd (snd (pch x))) (snd (snd (pch y))))"
          using pmul_slow [OF False] sy by simp
        note ih = "1.IH"(1) [OF nf sy] "1.IH"(2) [OF nf sy]
        show ?thesis
          unfolding eq Cons act_pmk using sy by (cases b) (simp_all add: ih)
      next
        case sy: True
        have eq: "pmul x y = pmk (\<not> fst (pch x)) (pmul (snd (snd (pch x))) (fst (snd (pch y))))
                               (pmul (fst (snd (pch x))) (snd (snd (pch y))))"
          using pmul_slow [OF False] sy by simp
        have sy': "\<not> \<not> fst (pch y)" using sy by simp
        note ih = "1.IH"(3) [OF nf sy'] "1.IH"(4) [OF nf sy']
        show ?thesis
          unfolding eq Cons act_pmk using sy by (cases b) (simp_all add: ih)
      qed
    qed
  qed
qed

fun nf :: "elt \<Rightarrow> bool" where
  "nf (EN s l r) = (nf l \<and> nf r \<and> pmk s l r = EN s l r)"
| "nf _ = True"

lemma nf_pmk: "nf l \<Longrightarrow> nf r \<Longrightarrow> nf (pmk s l r)"
  by (simp add: pmk_def)

lemma nf_pch: "nf x \<Longrightarrow> nf (fst (snd (pch x))) \<and> nf (snd (snd (pch x)))"
  by (cases x) simp_all

lemma nf_pmul: "nf x \<Longrightarrow> nf y \<Longrightarrow> nf (pmul x y)"
proof (induction x y rule: pmul.induct)
  case (1 x y)
  show ?case
  proof (cases "pfast x y")
    case True
    with "1.prems" show ?thesis
      unfolding pfast_def
      by (elim disjE conjE insertE emptyE) (simp_all add: pmul.simps)
  next
    case False
    then have nfp: "x \<noteq> EI" "y \<noteq> EI" "\<not> (x = EA \<and> y = EA)" "\<not> (x = EB \<and> y = EB)"
      "\<not> (x = EC \<and> y = EC)" "\<not> (x = ED \<and> y = ED)" "\<not> (x = EB \<and> y = EC)"
      "\<not> (x = EC \<and> y = EB)" "\<not> (x = EB \<and> y = ED)" "\<not> (x = ED \<and> y = EB)"
      "\<not> (x = EC \<and> y = ED)" "\<not> (x = ED \<and> y = EC)"
      by (auto simp: pfast_def)
    from "1.prems" nf_pch [of x] nf_pch [of y]
    have ch: "nf (fst (snd (pch x)))" "nf (snd (snd (pch x)))"
      "nf (fst (snd (pch y)))" "nf (snd (snd (pch y)))" by simp_all
    show ?thesis
    proof (cases "fst (pch y)")
      case sy: False
      note ih = "1.IH"(1) [OF nfp sy ch(1,3)] "1.IH"(2) [OF nfp sy ch(2,4)]
      show ?thesis
        using sy ih by (simp add: pmul_slow [OF False] nf_pmk)
    next
      case sy: True
      have sy': "\<not> \<not> fst (pch y)" using sy by simp
      note ih = "1.IH"(3) [OF nfp sy' ch(2,3)] "1.IH"(4) [OF nfp sy' ch(1,4)]
      show ?thesis
        using sy ih by (simp add: pmul_slow [OF False] nf_pmk)
    qed
  qed
qed

lemma act_eq_pch:
  assumes "\<And>v. act x v = act y v"
  shows "fst (pch x) = fst (pch y)"
    and "act (fst (snd (pch x))) v = act (fst (snd (pch y))) v"
    and "act (snd (snd (pch x))) v = act (snd (snd (pch y))) v"
  using assms [of "[False]"] assms [of "False # v"] assms [of "True # v"] by auto

lemma leaf_act_inj:
  assumes "size x = 0" "size y = 0"
    and "act x [False] = act y [False]" "act x [False, False] = act y [False, False]"
    and "act x [True, False, False] = act y [True, False, False]"
  shows "x = y"
  using assms by (cases x; cases y) simp_all

lemma act_inj: "nf x \<Longrightarrow> nf y \<Longrightarrow> (\<And>v. act x v = act y v) \<Longrightarrow> x = y"
proof (induction "size x + size y" arbitrary: x y rule: less_induct)
  case less
  note eq = act_eq_pch [OF less.prems(3)]
  show ?case
  proof (cases "size x = 0 \<and> size y = 0")
    case True
    then show ?thesis
      using leaf_act_inj [OF _ _ less.prems(3) less.prems(3) less.prems(3)] by simp
  next
    case False
    have sz: "size (fst (snd (pch x))) + size (fst (snd (pch y))) < size x + size y"
      "size (snd (snd (pch x))) + size (snd (snd (pch y))) < size x + size y"
      using False by (cases x; cases y; simp)+
    from less.prems nf_pch [of x] nf_pch [of y]
    have ch: "nf (fst (snd (pch x)))" "nf (snd (snd (pch x)))"
      "nf (fst (snd (pch y)))" "nf (snd (snd (pch y)))" by simp_all
    have l: "fst (snd (pch x)) = fst (snd (pch y))"
      using less.hyps [OF sz(1) ch(1,3)] eq(2) by simp
    have r: "snd (snd (pch x)) = snd (snd (pch y))"
      using less.hyps [OF sz(2) ch(2,4)] eq(3) by simp
    from l r eq(1) have "pch x = pch y" by (simp add: prod_eq_iff)
    with less.prems(1,2) False show ?thesis
      by (cases x; cases y) (auto simp: pmk_def)
  qed
qed

lemma pmul_assoc: "nf x \<Longrightarrow> nf y \<Longrightarrow> nf z \<Longrightarrow> pmul (pmul x y) z = pmul x (pmul y z)"
  by (rule act_inj) (simp_all add: nf_pmul act_pmul)

subsection \<open>The generators of the traversal move the root to every vertex\<close>

text \<open>
  The traversal of \<^verbatim>\<open>prepare\<close> multiplies by b, ac and ca. Words over these three act
  transitively on every level of the binary tree: for each of them there is a word that
  fixes the first bit \<open>False\<close> and acts below it as that generator does (\<open>lift_gen\<close>), and
  ac flips the first bit. So the words reach \<open>2 ^ n\<close> vertices of the level \<open>n\<close>, and
  no finite set of values that contains the identity is closed under multiplication by the
  three generators.
\<close>

datatype hgen = GB | GAC | GCA

fun hval :: "hgen \<Rightarrow> elt" where
  "hval GB = EB"
| "hval GAC = pmul EA EC"
| "hval GCA = pmul EC EA"

fun actw :: "hgen list \<Rightarrow> bool list \<Rightarrow> bool list" where
  "actw [] v = v"
| "actw (g # w) v = act (hval g) (actw w v)"

fun lift_gen :: "hgen \<Rightarrow> hgen list" where
  "lift_gen GB = [GAC, GB, GAC, GB]"
| "lift_gen GAC = [GB, GAC, GB, GCA]"
| "lift_gen GCA = [GAC, GB, GCA, GB]"

lemma length_act: "length (act e v) = length v"
  by (induction v arbitrary: e) simp_all

lemma actw_append: "actw (w1 @ w2) v = actw w1 (actw w2 v)"
  by (induction w1) simp_all

lemma act_hval:
  "act (hval GB) v = act EB v" "act (hval GAC) v = act EA (act EC v)"
  "act (hval GCA) v = act EC (act EA v)"
  by (simp_all add: act_pmul)

lemma act_first:
  "act EA (x # v) = (\<not> x) # v"
  "act EB (x # v) = x # act (if x then EC else EA) v"
  "act EC (x # v) = x # act (if x then ED else EA) v"
  "act ED (x # v) = x # act (if x then EB else EI) v"
  by (simp_all add: act_EI)

lemma lift_gen_act: "actw (lift_gen g) (False # v) = False # act (hval g) v"
  by (cases g) (simp_all add: act_hval act_first act_EA_EA act_klein del: act.simps hval.simps)

lemma lift_word_act: "actw (concat (map lift_gen w)) (False # v) = False # actw w v"
  by (induction w) (simp_all add: actw_append lift_gen_act del: lift_gen.simps hval.simps)

lemma level_transitive:
  "length u = n \<Longrightarrow> \<exists>w. actw w (replicate n False) = u"
proof (induction n arbitrary: u)
  case 0
  then have "actw [] (replicate 0 False) = u" by simp
  then show ?case by blast
next
  case (Suc n)
  then obtain x u' where u: "u = x # u'" and l: "length u' = n" by (cases u) auto
  show ?case
  proof (cases x)
    case False
    from Suc.IH [OF l] obtain w where "actw w (replicate n False) = u'" by blast
    with lift_word_act [of w "replicate n False"] u False
    have "actw (concat (map lift_gen w)) (replicate (Suc n) False) = u" by simp
    then show ?thesis by blast
  next
    case True
    have "length (act EA u') = n" using l by (simp add: length_act)
    from Suc.IH [OF this] obtain w where w: "actw w (replicate n False) = act EA u'" by blast
    have "actw (GAC # concat (map lift_gen w)) (replicate (Suc n) False) =
            act (hval GAC) (False # act EA u')"
      using lift_word_act [of w "replicate n False"] w by simp
    also have "\<dots> = True # u'"
      by (simp add: act_hval act_first act_EA_EA del: act.simps hval.simps)
    finally have "actw (GAC # concat (map lift_gen w)) (replicate (Suc n) False) = u"
      using u True by simp
    then show ?thesis by blast
  qed
qed

lemma closed_reaches:
  assumes I: "EI \<in> D" and cl: "\<And>x g. x \<in> D \<Longrightarrow> pmul x (hval g) \<in> D"
  shows "\<exists>e \<in> D. \<forall>v. act e v = actw w v"
proof (induction w rule: rev_induct)
  case Nil
  have "\<forall>v. act EI v = actw [] v" by (simp add: act_EI)
  with I show ?case by blast
next
  case (snoc g w)
  then obtain e where e: "e \<in> D" "\<And>v. act e v = actw w v" by blast
  have "act (pmul e (hval g)) v = actw (w @ [g]) v" for v
    by (simp add: act_pmul e(2) actw_append)
  with cl [OF e(1), of g] show ?case by blast
qed

lemma closed_infinite:
  assumes I: "EI \<in> D" and cl: "\<And>x g. x \<in> D \<Longrightarrow> pmul x (hval g) \<in> D"
  shows "\<not> finite D"
proof
  assume fin: "finite D"
  define n where "n = card D"
  define V where "V = (\<lambda>e. act e (replicate n False)) ` D"
  have "{u :: bool list. set u \<subseteq> UNIV \<and> length u = n} \<subseteq> V"
  proof
    fix u :: "bool list" assume "u \<in> {u. set u \<subseteq> UNIV \<and> length u = n}"
    then have "length u = n" by simp
    from level_transitive [OF this] obtain w where w: "actw w (replicate n False) = u" by blast
    from closed_reaches [OF I cl, of w] obtain e where e: "e \<in> D" "\<And>v. act e v = actw w v"
      by blast
    from e(2) w have "u = act e (replicate n False)" by simp
    then show "u \<in> V" unfolding V_def using e(1) by (rule image_eqI)
  qed
  moreover have fV: "finite V" unfolding V_def using fin by simp
  ultimately have "card {u :: bool list. set u \<subseteq> UNIV \<and> length u = n} \<le> card V"
    by (rule card_mono [rotated])
  moreover have "card {u :: bool list. set u \<subseteq> UNIV \<and> length u = n} = 2 ^ n"
    using card_lists_length_eq [of "UNIV :: bool set" n] by simp
  moreover have "card V \<le> n" unfolding V_def n_def by (rule card_image_le [OF fin])
  ultimately have "(2 :: nat) ^ n \<le> n" by simp
  moreover have "n < 2 ^ n" by simp
  ultimately show False by simp
qed

subsection \<open>The value of a pointer in a store\<close>

fun in_store :: "nat \<Rightarrow> prep \<Rightarrow> bool" where
  "in_store n (Addr_node i) = (i < n)"
| "in_store n _ = True"

lemma valid_in_store: "valid s p = in_store (length (all_reps s)) p"
  by (cases p) simp_all

definition closed :: "(bool \<times> prep \<times> prep) list \<Rightarrow> bool" where
  "closed ts = (\<forall>i < length ts. in_store i (fst (snd (ts ! i))) \<and> in_store i (snd (snd (ts ! i))))"

definition store_ok :: "state \<Rightarrow> bool" where
  "store_ok s = (store_inv s \<and> closed (map tie (all_reps s)))"

fun den1 :: "elt list \<Rightarrow> prep \<Rightarrow> elt" where
  "den1 ds Addr_I = EI"
| "den1 ds Addr_a = EA"
| "den1 ds Addr_b = EB"
| "den1 ds Addr_c = EC"
| "den1 ds Addr_d = ED"
| "den1 ds (Addr_node i) = (if i < length ds then ds ! i else EI)"

definition den_step :: "elt list \<Rightarrow> bool \<times> prep \<times> prep \<Rightarrow> elt list" where
  "den_step ds t = ds @ [EN (fst t) (den1 ds (fst (snd t))) (den1 ds (snd (snd t)))]"

definition dens :: "(bool \<times> prep \<times> prep) list \<Rightarrow> elt list" where
  "dens ts = foldl den_step [] ts"

definition den :: "state \<Rightarrow> prep \<Rightarrow> elt" where
  "den s p = den1 (dens (map tie (all_reps s))) p"

lemma dens_snoc: "dens (ts @ [t]) = den_step (dens ts) t"
  by (simp add: dens_def)

lemma length_dens: "length (dens ts) = length ts"
  by (induction ts rule: rev_induct) (simp_all add: dens_def den_step_def)

lemma den1_append: "in_store (length ds) p \<Longrightarrow> den1 (ds @ es) p = den1 ds p"
  by (cases p) (simp_all add: nth_append)

lemma dens_append: "\<exists>es. dens (ts @ us) = dens ts @ es"
proof (induction us rule: rev_induct)
  case Nil
  show ?case by simp
next
  case (snoc u us)
  then obtain es where "dens (ts @ us) = dens ts @ es" by blast
  then show ?case
    using dens_snoc [of "ts @ us" u] by (simp add: den_step_def)
qed

lemma den1_dens_append:
  "in_store (length ts) p \<Longrightarrow> den1 (dens (ts @ us)) p = den1 (dens ts) p"
  using dens_append [of ts us] by (auto simp: den1_append length_dens)

lemma in_store_mono: "in_store n p \<Longrightarrow> n \<le> m \<Longrightarrow> in_store m p"
  by (cases p) simp_all

lemma closed_snoc:
  "closed (ts @ [t]) = (closed ts \<and> in_store (length ts) (fst (snd t)) \<and> in_store (length ts) (snd (snd t)))"
  by (auto simp: closed_def nth_append less_Suc_eq)

text \<open>Unfolding a node's denotation.\<close>

lemma dens_nth:
  "closed ts \<Longrightarrow> i < length ts \<Longrightarrow>
     dens ts ! i = EN (fst (ts ! i)) (den1 (dens ts) (fst (snd (ts ! i)))) (den1 (dens ts) (snd (snd (ts ! i))))"
proof (induction ts rule: rev_induct)
  case Nil
  then show ?case by simp
next
  case (snoc t ts)
  from snoc.prems(1) have cl: "closed ts" and ch: "in_store (length ts) (fst (snd t))"
    "in_store (length ts) (snd (snd t))"
    by (simp_all add: closed_snoc)
  show ?case
  proof (cases "i < length ts")
    case True
    with cl have ci: "in_store (length ts) (fst (snd (ts ! i)))" "in_store (length ts) (snd (snd (ts ! i)))"
      by (auto simp: closed_def intro: in_store_mono)
    from True snoc.IH [OF cl True] show ?thesis
      using den1_dens_append [OF ci(1), of "[t]"] den1_dens_append [OF ci(2), of "[t]"]
      by (simp add: dens_snoc den_step_def nth_append length_dens)
  next
    case False
    with snoc.prems(2) have i: "i = length ts" by simp
    show ?thesis
      using den1_dens_append [OF ch(1), of "[t]"] den1_dens_append [OF ch(2), of "[t]"]
      by (simp add: i dens_snoc den_step_def nth_append length_dens)
  qed
qed

definition ties_ok :: "(bool \<times> prep \<times> prep) list \<Rightarrow> bool" where
  "ties_ok ts = (distinct ts \<and> (\<forall>t \<in> set ts. t \<notin> set fixed_ties) \<and> closed ts)"

lemma ties_ok_snoc:
  "ties_ok (ts @ [t]) =
     (ties_ok ts \<and> t \<notin> set ts \<and> t \<notin> set fixed_ties \<and>
      in_store (length ts) (fst (snd t)) \<and> in_store (length ts) (snd (snd t)))"
  by (auto simp: ties_ok_def closed_snoc)

lemma den1_leaf_node: "in_store (length ts) p \<Longrightarrow> closed ts \<Longrightarrow>
   (den1 (dens ts) p = EI) = (p = Addr_I) \<and> (den1 (dens ts) p = EA) = (p = Addr_a) \<and>
   (den1 (dens ts) p = EB) = (p = Addr_b) \<and> (den1 (dens ts) p = EC) = (p = Addr_c) \<and>
   (den1 (dens ts) p = ED) = (p = Addr_d)"
  by (cases p) (simp_all add: length_dens dens_nth)

lemma den1_inj:
  "ties_ok ts \<Longrightarrow> in_store (length ts) p \<Longrightarrow> in_store (length ts) q \<Longrightarrow>
     den1 (dens ts) p = den1 (dens ts) q \<Longrightarrow> p = q"
proof (induction ts arbitrary: p q rule: rev_induct)
  case Nil
  then show ?case by (cases p; cases q) simp_all
next
  case (snoc t ts)
  from snoc.prems(1) have ok: "ties_ok ts" and new: "t \<notin> set ts"
    and ch: "in_store (length ts) (fst (snd t))" "in_store (length ts) (snd (snd t))"
    by (simp_all add: ties_ok_snoc)
  from ok have cl: "closed ts" by (simp add: ties_ok_def)
  from snoc.prems(1) have cl': "closed (ts @ [t])" by (simp add: ties_ok_def)
  have e: "dens (ts @ [t]) = dens ts @ [EN (fst t) (den1 (dens ts) (fst (snd t))) (den1 (dens ts) (snd (snd t)))]"
    by (simp add: dens_snoc den_step_def)
  have old: "den1 (dens (ts @ [t])) u = den1 (dens ts) u" if "in_store (length ts) u" for u
    using den1_dens_append [OF that] .
  have fresh: "den1 (dens (ts @ [t])) (Addr_node (length ts)) =
      EN (fst t) (den1 (dens ts) (fst (snd t))) (den1 (dens ts) (snd (snd t)))"
    by (simp add: e length_dens nth_append)
  have newold: False
    if u: "in_store (length ts) u"
      and eq: "den1 (dens ts) u = EN (fst t) (den1 (dens ts) (fst (snd t))) (den1 (dens ts) (snd (snd t)))"
    for u
  proof (cases u)
    case (Addr_node j)
    with u have j: "j < length ts" by simp
    with cl have cj: "in_store (length ts) (fst (snd (ts ! j)))" "in_store (length ts) (snd (snd (ts ! j)))"
      by (auto simp: closed_def intro: in_store_mono)
    from eq Addr_node j dens_nth [OF cl j]
    have "fst (ts ! j) = fst t"
      "den1 (dens ts) (fst (snd (ts ! j))) = den1 (dens ts) (fst (snd t))"
      "den1 (dens ts) (snd (snd (ts ! j))) = den1 (dens ts) (snd (snd t))"
      by (simp_all add: length_dens)
    with snoc.IH [OF ok cj(1) ch(1)] snoc.IH [OF ok cj(2) ch(2)]
    have "ts ! j = t" by (simp add: prod_eq_iff)
    with j new show False by (metis nth_mem)
  qed (use eq in simp_all)
  show ?case
  proof (cases "in_store (length ts) p")
    case p: True
    show ?thesis
    proof (cases "in_store (length ts) q")
      case q: True
      with p snoc.prems(4) old show ?thesis by (auto intro: snoc.IH [OF ok])
    next
      case False
      with snoc.prems(3) have q: "q = Addr_node (length ts)" by (cases q) auto
      with snoc.prems(4) old [OF p] fresh newold [OF p] show ?thesis
        by simp
    qed
  next
    case False
    with snoc.prems(2) have p: "p = Addr_node (length ts)" by (cases p) auto
    show ?thesis
    proof (cases "in_store (length ts) q")
      case q: True
      with snoc.prems(4) old [OF q] fresh newold [OF q] p show ?thesis
        by simp
    next
      case False
      with snoc.prems(3) have "q = Addr_node (length ts)" by (cases q) auto
      with p show ?thesis by simp
    qed
  qed
qed

lemma store_ok_ties: "store_ok s \<Longrightarrow> ties_ok (map tie (all_reps s))"
  by (auto simp: store_ok_def store_inv_def ties_ok_def list_all_iff)

lemma store_ok_statics: "store_ok s \<Longrightarrow> statics_ok s"
  by (simp add: store_ok_def store_inv_def)

lemma store_ok_inv: "store_ok s \<Longrightarrow> store_inv s"
  by (simp add: store_ok_def)

lemma den_inj:
  assumes "store_ok s" "valid s p" "valid s q" "den s p = den s q"
  shows "p = q"
  using den1_inj [OF store_ok_ties [OF assms(1)], of p q] assms(2-4)
  by (simp add: den_def valid_in_store)

lemma den_ext: "valid s p \<Longrightarrow> den (s\<lparr>all_reps := all_reps s @ new\<rparr>) p = den s p"
  using den1_dens_append [of "map tie (all_reps s)" p "map tie new"]
  by (simp add: den_def valid_in_store)

lemma valid_ext: "valid s p \<Longrightarrow> valid (s\<lparr>all_reps := all_reps s @ new\<rparr>) p"
  by (cases p) simp_all

lemma children_valid:
  assumes "store_ok s" "deref s p = Some r"
  shows "valid s (a0 r) \<and> valid s (a1 r)"
proof (cases p)
  case (Addr_node i)
  with assms(2) have i: "i < length (all_reps s)" "r = all_reps s ! i"
    by (auto split: if_splits)
  from assms(1) have "closed (map tie (all_reps s))" by (simp add: store_ok_def)
  with i have "in_store i (a0 r) \<and> in_store i (a1 r)"
    by (auto simp: closed_def tie_def)
  with i(1) show ?thesis
    by (auto simp: valid_in_store intro: in_store_mono)
qed (use assms store_ok_statics [OF assms(1)] in \<open>auto simp: statics_ok_def tie_def\<close>)

lemma pch_den:
  assumes "store_ok s" "deref s p = Some r"
  shows "pch (den s p) = (swapped r, den s (a0 r), den s (a1 r))"
proof (cases p)
  case (Addr_node i)
  with assms(2) have i: "i < length (all_reps s)" "r = all_reps s ! i"
    by (auto split: if_splits)
  from assms(1) have "closed (map tie (all_reps s))" by (simp add: store_ok_def)
  from dens_nth [OF this, of i] i Addr_node show ?thesis
    by (simp add: den_def length_dens tie_def)
qed (use assms store_ok_statics [OF assms(1)] in \<open>auto simp: statics_ok_def tie_def den_def\<close>)

lemma den_leaf:
  assumes "store_ok s" "valid s p"
  shows "(den s p = EI) = (p = Addr_I)" "(den s p = EA) = (p = Addr_a)"
    "(den s p = EB) = (p = Addr_b)" "(den s p = EC) = (p = Addr_c)" "(den s p = ED) = (p = Addr_d)"
  using den1_leaf_node [of "map tie (all_reps s)" p] assms
  by (simp_all add: den_def valid_in_store store_ok_def)

lemma den_static [simp]:
  "den s Addr_I = EI" "den s Addr_a = EA" "den s Addr_b = EB" "den s Addr_c = EC" "den s Addr_d = ED"
  by (simp_all add: den_def)

lemma pmk_pch: "nf e \<Longrightarrow> pmk (fst (pch e)) (fst (snd (pch e))) (snd (snd (pch e))) = e"
  by (cases e) (simp_all add: pmk_def)

lemma nf_den_node:
  assumes ok: "store_ok s"
  shows "i < length (all_reps s) \<Longrightarrow> nf (den s (Addr_node i))"
proof (induction i rule: less_induct)
  case (less i)
  let ?r = "all_reps s ! i"
  have d: "deref s (Addr_node i) = Some ?r" using less.prems by simp
  note pc = pch_den [OF ok d]
  from ok have cl: "closed (map tie (all_reps s))" by (simp add: store_ok_def)
  with less.prems have ch: "in_store i (a0 ?r)" "in_store i (a1 ?r)"
    by (auto simp: closed_def tie_def)
  have nfc: "nf (den s c)" if "in_store i c" for c
  proof (cases c)
    case (Addr_node j)
    with that less.prems less.IH [of j] show ?thesis by simp
  qed simp_all
  from children_valid [OF ok d] have cv: "valid s (a0 ?r)" "valid s (a1 ?r)" by simp_all
  from ok less.prems have nfix: "tie ?r \<notin> set fixed_ties"
    by (auto simp: store_ok_def store_inv_def list_all_iff)
  have e: "den s (Addr_node i) = EN (swapped ?r) (den s (a0 ?r)) (den s (a1 ?r))"
    using pc by (cases "den s (Addr_node i)")
      (use den_leaf [OF ok, of "Addr_node i"] less.prems in \<open>simp_all\<close>)
  have "pmk (swapped ?r) (den s (a0 ?r)) (den s (a1 ?r)) = EN (swapped ?r) (den s (a0 ?r)) (den s (a1 ?r))"
    using nfix den_leaf [OF ok cv(1)] den_leaf [OF ok cv(2)]
    by (auto simp: pmk_def fixed_ties_def tie_def)
  with nfc [OF ch(1)] nfc [OF ch(2)] e show ?case by simp
qed

lemma nf_den: "store_ok s \<Longrightarrow> valid s p \<Longrightarrow> nf (den s p)"
  by (cases p) (simp_all add: nf_den_node)

lemma store_ok_append:
  assumes "store_ok s" "store_inv (s\<lparr>all_reps := all_reps s @ [x]\<rparr>)" "valid s (a0 x)" "valid s (a1 x)"
  shows "store_ok (s\<lparr>all_reps := all_reps s @ [x]\<rparr>)"
  using assms by (simp add: store_ok_def closed_snoc valid_in_store tie_def)

lemma lookup_den:
  assumes ok: "store_ok s" and v: "valid s (a0 x)" "valid s (a1 x)" and l: "lookup s x = (p, s1)"
  shows "store_ok s1 \<and> valid s1 p \<and>
         (s1 = s \<or> s1 = s\<lparr>all_reps := all_reps s @ [x]\<rparr> \<and> p = Addr_node (length (all_reps s))) \<and>
         (\<exists>r. deref s1 p = Some r \<and> tie r = tie x) \<and>
         den s1 p = pmk (swapped x) (den s (a0 x)) (den s (a1 x))"
proof -
  from lookup_post [OF store_ok_inv [OF ok] l] obtain r where inv1: "store_inv s1"
    and s1: "s1 = s \<or> s1 = s\<lparr>all_reps := all_reps s @ [x]\<rparr> \<and> p = Addr_node (length (all_reps s))"
    and r: "deref s1 p = Some r" "tie r = tie x"
    by blast
  from s1 inv1 ok v have ok1: "store_ok s1"
    by (auto intro: store_ok_append)
  from r(1) have vp: "valid s1 p" by (rule deref_valid)
  from s1 v have dc: "den s1 (a0 x) = den s (a0 x)" "den s1 (a1 x) = den s (a1 x)"
    by (auto simp: den_ext)
  from pch_den [OF ok1 r(1)] r(2) dc
  have "pch (den s1 p) = (swapped x, den s (a0 x), den s (a1 x))"
    by (simp add: tie_def)
  with pmk_pch [OF nf_den [OF ok1 vp]] have "den s1 p = pmk (swapped x) (den s (a0 x)) (den s (a1 x))"
    by simp
  with ok1 vp s1 r show ?thesis by simp
qed

subsection \<open>\<^verbatim>\<open>mul\<close> returns, and computes the product of the values\<close>

fun rank :: "prep \<Rightarrow> nat" where
  "rank (Addr_node i) = Suc i"
| "rank _ = 0"

definition mul_measure :: "prep \<Rightarrow> prep \<Rightarrow> nat" where
  "mul_measure x y = 2 * (rank x + rank y) + (if x = Addr_I \<or> y = Addr_I then 0 else 1)"

definition fast :: "prep \<Rightarrow> prep \<Rightarrow> bool" where
  "fast x y =
     (x = Addr_I \<or> y = Addr_I \<or> (x = Addr_a \<and> y = Addr_a) \<or>
      (x \<in> {Addr_b, Addr_c, Addr_d} \<and> y \<in> {Addr_b, Addr_c, Addr_d}))"

definition fast_result :: "prep \<Rightarrow> prep \<Rightarrow> prep" where
  "fast_result x y =
     (if x = Addr_I then y
      else if y = Addr_I then x
      else if x = y then Addr_I
      else if x \<noteq> Addr_b \<and> y \<noteq> Addr_b then Addr_b
      else if x \<noteq> Addr_c \<and> y \<noteq> Addr_c then Addr_c
      else Addr_d)"

lemma mul_fast: "fast x y \<Longrightarrow> mul s x y = Some (fast_result x y, s)"
  unfolding fast_def
  by (elim disjE conjE insertE emptyE) (simp_all add: mul.simps fast_result_def)

lemma pmul_fast:
  assumes "store_ok s" "valid s x" "valid s y" "fast x y"
  shows "pmul (den s x) (den s y) = den s (fast_result x y)"
proof -
  have "pmul (den s x) EI = den s x" "pmul EI (den s y) = den s y"
    by (simp_all add: pmul.simps)
  with assms(4) show ?thesis
    unfolding fast_def
    by (elim disjE conjE insertE emptyE) (simp_all add: pmul.simps fast_result_def)
qed

lemma fast_result_valid: "fast x y \<Longrightarrow> valid s x \<Longrightarrow> valid s y \<Longrightarrow> valid s (fast_result x y)"
  by (auto simp: fast_def fast_result_def)

lemma mul_slow:
  "\<not> fast x y \<Longrightarrow>
     mul s x y =
       do {
        rx \<leftarrow> deref s x;
        ry \<leftarrow> deref s y;
        if \<not> swapped ry then do {
          (p0, s1) \<leftarrow> mul s (a0 rx) (a0 ry);
          (p1, s2) \<leftarrow> mul s1 (a1 rx) (a1 ry);
          ry2 \<leftarrow> deref s2 y;
          Some (lookup s2 (mk_rep (swapped rx) p0 p1 (last_r ry2)))
        } else do {
          (p0, s1) \<leftarrow> mul s (a1 rx) (a0 ry);
          (p1, s2) \<leftarrow> mul s1 (a0 rx) (a1 ry);
          ry2 \<leftarrow> deref s2 y;
          Some (lookup s2 (mk_rep (\<not> swapped rx) p0 p1 (last_r ry2)))
        }
      }"
  by (subst mul.simps) (auto simp: fast_def)

lemma fast_den:
  assumes "store_ok s" "valid s x" "valid s y"
  shows "pfast (den s x) (den s y) = fast x y"
  using den_leaf [OF assms(1,2)] den_leaf [OF assms(1,3)]
  by (simp add: pfast_def fast_def)

lemma rank_child:
  assumes "store_ok s" "deref s p = Some r" "c = a0 r \<or> c = a1 r"
  shows "rank c < rank p \<or> (rank p = 0 \<and> rank c = 0 \<and> (p = Addr_a \<longrightarrow> c = Addr_I))"
proof (cases p)
  case (Addr_node i)
  with assms(2) have i: "i < length (all_reps s)" "r = all_reps s ! i"
    by (auto split: if_splits)
  from assms(1) have "closed (map tie (all_reps s))" by (simp add: store_ok_def)
  with i have "in_store i (a0 r) \<and> in_store i (a1 r)"
    by (auto simp: closed_def tie_def)
  with assms(3) have "in_store i c" by auto
  then have "rank c \<le> i" by (cases c) simp_all
  with Addr_node show ?thesis by simp
qed (use assms store_ok_statics [OF assms(1)] in \<open>auto simp: statics_ok_def tie_def\<close>)

lemma child_measure:
  assumes "store_ok s" "deref s x = Some rx" "deref s y = Some ry" "\<not> fast x y"
    and "cx = a0 rx \<or> cx = a1 rx" "cy = a0 ry \<or> cy = a1 ry"
  shows "mul_measure cx cy < mul_measure x y"
proof -
  note rx = rank_child [OF assms(1,2,5)] and ry = rank_child [OF assms(1,3,6)]
  show ?thesis
  proof (cases "rank x = 0 \<and> rank y = 0")
    case True
    with assms(4) have "x = Addr_a \<or> y = Addr_a"
      by (cases x; cases y) (simp_all add: fast_def)
    with True rx ry have "cx = Addr_I \<or> cy = Addr_I" "rank cx = 0" "rank cy = 0" by auto
    with assms(4) show ?thesis by (auto simp: mul_measure_def fast_def)
  next
    case False
    with rx ry have "rank cx + rank cy < rank x + rank y" by auto
    moreover from assms(4) have "x \<noteq> Addr_I" "y \<noteq> Addr_I" by (auto simp: fast_def)
    ultimately show ?thesis by (simp add: mul_measure_def)
  qed
qed

lemma child_not_last:
  assumes "store_ok s" "deref s p = Some r" "c = a0 r \<or> c = a1 r"
  shows "c \<noteq> Addr_node (length (all_reps s) - 1)"
proof (cases p)
  case (Addr_node i)
  with assms(2) have i: "i < length (all_reps s)" "r = all_reps s ! i"
    by (auto split: if_splits)
  from assms(1) have "closed (map tie (all_reps s))" by (simp add: store_ok_def)
  with i have "in_store i (a0 r) \<and> in_store i (a1 r)"
    by (auto simp: closed_def tie_def)
  with assms(3) have "in_store i c" by auto
  with i(1) show ?thesis by (cases c) auto
qed (use assms store_ok_statics [OF assms(1)] in \<open>auto simp: statics_ok_def tie_def\<close>)

definition mul_ok :: "state \<Rightarrow> prep \<Rightarrow> prep \<Rightarrow> prep \<Rightarrow> state \<Rightarrow> bool" where
  "mul_ok s x y p s' =
     (store_ok s' \<and> valid s' p \<and> den s' p = pmul (den s x) (den s y) \<and>
      (\<exists>new. s' = s\<lparr>all_reps := all_reps s @ new\<rparr> \<and>
         (\<forall>r \<in> set new. \<not> visited r \<and> len r = - 1) \<and>
         (new = [] \<or>
          p = Addr_node (length (all_reps s') - 1) \<and>
          (\<exists>ry. deref s y = Some ry \<and> last_r (last new) = last_r ry))))"

lemma mul_ok_fast:
  assumes "store_ok s" "valid s x" "valid s y" "fast x y"
  shows "mul_ok s x y (fast_result x y) s"
  unfolding mul_ok_def
  using assms pmul_fast [OF assms] fast_result_valid [OF assms(4,2,3)]
  by (auto intro: exI [of _ "[]"])

lemma mul_ok_ext:
  "mul_ok s x y p s' \<Longrightarrow> \<exists>new. s' = s\<lparr>all_reps := all_reps s @ new\<rparr>"
  by (auto simp: mul_ok_def)

lemma mul_combine:
  assumes ok: "store_ok s" and dx: "deref s x = Some rx" and dy: "deref s y = Some ry"
    and slow: "\<not> fast x y"
    and c0: "c0 = (if swapped ry then a1 rx else a0 rx)"
    and c1: "c1 = (if swapped ry then a0 rx else a1 rx)"
    and m0: "mul s c0 (a0 ry) = Some (p0, s1)" and ok0: "mul_ok s c0 (a0 ry) p0 s1"
    and m1: "mul s1 c1 (a1 ry) = Some (p1, s2)" and ok1: "mul_ok s1 c1 (a1 ry) p1 s2"
  shows "\<exists>p s3. mul s x y = Some (p, s3) \<and> mul_ok s x y p s3"
proof -
  let ?sw = "swapped rx \<noteq> swapped ry"
  let ?cand = "mk_rep ?sw p0 p1 (last_r ry)"
  obtain p s3 where l: "lookup s2 ?cand = (p, s3)" by (cases "lookup s2 ?cand") auto
  from ok0 obtain n1 where s1: "s1 = s\<lparr>all_reps := all_reps s @ n1\<rparr>"
    and f1: "\<forall>r \<in> set n1. \<not> visited r \<and> len r = - 1"
    and last1: "n1 = [] \<or> p0 = Addr_node (length (all_reps s1) - 1)"
    by (auto simp: mul_ok_def)
  from ok1 obtain n2 where s2: "s2 = s1\<lparr>all_reps := all_reps s1 @ n2\<rparr>"
    and f2: "\<forall>r \<in> set n2. \<not> visited r \<and> len r = - 1"
    and last2: "n2 = [] \<or> p1 = Addr_node (length (all_reps s2) - 1)"
    by (auto simp: mul_ok_def)
  from ok0 have oks1: "store_ok s1" and vp0: "valid s1 p0"
    and d0: "den s1 p0 = pmul (den s c0) (den s (a0 ry))"
    by (simp_all add: mul_ok_def)
  from ok1 have oks2: "store_ok s2" and vp1: "valid s2 p1"
    and d1: "den s2 p1 = pmul (den s1 c1) (den s1 (a1 ry))"
    by (simp_all add: mul_ok_def)
  from children_valid [OF ok dx] children_valid [OF ok dy]
  have cv: "valid s c0" "valid s c1" "valid s (a0 ry)" "valid s (a1 ry)"
    by (simp_all add: c0 c1)
  have vx: "valid s x" and vy: "valid s y"
    using dx dy by (auto intro: deref_valid)
  from dy have dy2: "deref s2 y = Some ry"
    unfolding s2 s1 by (intro deref_append)
  have vp0': "valid s2 p0" using vp0 unfolding s2 by (rule valid_ext)
  have cand: "a0 ?cand = p0" "a1 ?cand = p1" "swapped ?cand = ?sw" "last_r ?cand = last_r ry"
    "\<not> visited ?cand" "len ?cand = - 1"
    by (simp_all add: mk_rep_def)
  from lookup_den [OF oks2 _ _ l] vp0' vp1 cand
  obtain r where oks3: "store_ok s3" and vp: "valid s3 p"
    and s3: "s3 = s2 \<or> s3 = s2\<lparr>all_reps := all_reps s2 @ [?cand]\<rparr> \<and> p = Addr_node (length (all_reps s2))"
    and r: "deref s3 p = Some r" "tie r = tie ?cand"
    and d: "den s3 p = pmk ?sw (den s2 p0) (den s2 p1)"
    by auto
  have mul_eq: "mul s x y = Some (p, s3)"
  proof (cases "swapped ry")
    case True
    with m0 m1 dx dy dy2 l c0 c1 show ?thesis
      by (simp add: mul_slow [OF slow])
  next
    case False
    with m0 m1 dx dy dy2 l c0 c1 show ?thesis
      by (simp add: mul_slow [OF slow])
  qed
  have "den s2 p0 = den s1 p0" using vp0 unfolding s2 by (rule den_ext)
  with d0 have e0: "den s2 p0 = pmul (den s c0) (den s (a0 ry))" by simp
  have "den s1 c1 = den s c1" "den s1 (a1 ry) = den s (a1 ry)"
    using cv unfolding s1 by (simp_all add: den_ext)
  with d1 have e1: "den s2 p1 = pmul (den s c1) (den s (a1 ry))" by simp
  have npf: "\<not> pfast (den s x) (den s y)"
    using fast_den [OF ok vx vy] slow by simp
  have den_eq: "den s3 p = pmul (den s x) (den s y)"
    unfolding d e0 e1 pmul_slow [OF npf] using pch_den [OF ok dx] pch_den [OF ok dy]
    by (auto simp: c0 c1)
  have struct: "\<exists>new. s3 = s\<lparr>all_reps := all_reps s @ new\<rparr> \<and>
         (\<forall>r \<in> set new. \<not> visited r \<and> len r = - 1) \<and>
         (new = [] \<or>
          p = Addr_node (length (all_reps s3) - 1) \<and>
          (\<exists>ry. deref s y = Some ry \<and> last_r (last new) = last_r ry))"
  proof (cases "s3 = s2")
    case False
    with s3 have s3': "s3 = s2\<lparr>all_reps := all_reps s2 @ [?cand]\<rparr>"
      and p: "p = Addr_node (length (all_reps s2))" by simp_all
    have "s3 = s\<lparr>all_reps := all_reps s @ (n1 @ n2 @ [?cand])\<rparr>"
      by (simp add: s3' s2 s1)
    moreover have "\<forall>r \<in> set (n1 @ n2 @ [?cand]). \<not> visited r \<and> len r = - 1"
      using f1 f2 cand by auto
    moreover have "p = Addr_node (length (all_reps s3) - 1)"
      by (simp add: p s3')
    moreover have "last_r (last (n1 @ n2 @ [?cand])) = last_r ry"
      using cand by simp
    ultimately show ?thesis using dy by blast
  next
    case True
    with r have r2: "deref s2 p = Some r" by simp
    from r(2) cand have ch: "a0 r = p0" "a1 r = p1" by (simp_all add: tie_def)
    from child_not_last [OF oks2 r2, of p1] ch last2 have n2: "n2 = []" by auto
    with s2 have s21: "s2 = s1" by simp
    from child_not_last [OF oks2 r2, of p0] ch last1 s21 have n1: "n1 = []" by auto
    with s1 s21 True have "s3 = s" by simp
    then have "s3 = s\<lparr>all_reps := all_reps s @ []\<rparr>" by simp
    then show ?thesis by (intro exI [of _ "[]"]) simp
  qed
  from oks3 vp den_eq struct have "mul_ok s x y p s3"
    unfolding mul_ok_def by blast
  with mul_eq show ?thesis by blast
qed

theorem mul_spec:
  "store_ok s \<Longrightarrow> valid s x \<Longrightarrow> valid s y \<Longrightarrow> \<exists>p s'. mul s x y = Some (p, s') \<and> mul_ok s x y p s'"
proof (induction "mul_measure x y" arbitrary: s x y rule: less_induct)
  case less
  note ok = less.prems(1) and vx = less.prems(2) and vy = less.prems(3)
  show ?case
  proof (cases "fast x y")
    case True
    from mul_fast [OF True] mul_ok_fast [OF ok vx vy True] show ?thesis by blast
  next
    case False
    from valid_deref [OF vx] obtain rx where dx: "deref s x = Some rx" by blast
    from valid_deref [OF vy] obtain ry where dy: "deref s y = Some ry" by blast
    define c0 where "c0 = (if swapped ry then a1 rx else a0 rx)"
    define c1 where "c1 = (if swapped ry then a0 rx else a1 rx)"
    from children_valid [OF ok dx] children_valid [OF ok dy]
    have cv: "valid s c0" "valid s c1" "valid s (a0 ry)" "valid s (a1 ry)"
      by (simp_all add: c0_def c1_def)
    have "mul_measure c0 (a0 ry) < mul_measure x y"
      by (rule child_measure [OF ok dx dy False]) (simp_all add: c0_def)
    from less.hyps [OF this ok cv(1,3)] obtain p0 s1
      where m0: "mul s c0 (a0 ry) = Some (p0, s1)" and ok0: "mul_ok s c0 (a0 ry) p0 s1"
      by blast
    from ok0 have oks1: "store_ok s1" by (simp add: mul_ok_def)
    from mul_ok_ext [OF ok0] cv have cv1: "valid s1 c1" "valid s1 (a1 ry)"
      by (auto intro: valid_ext)
    have "mul_measure c1 (a1 ry) < mul_measure x y"
      by (rule child_measure [OF ok dx dy False]) (simp_all add: c1_def)
    from less.hyps [OF this oks1 cv1] obtain p1 s2
      where m1: "mul s1 c1 (a1 ry) = Some (p1, s2)" and ok1: "mul_ok s1 c1 (a1 ry) p1 s2"
      by blast
    show ?thesis
      by (rule mul_combine [OF ok dx dy False c0_def c1_def m0 ok0 m1 ok1])
  qed
qed

lemma store_ok_init: "store_ok init_state"
  using store_inv_init by (simp add: store_ok_def closed_def init_state_def)

lemma swap_pmul: "fst (pch (pmul e f)) = (fst (pch e) \<noteq> fst (pch f))"
  using act_pmul [of e f "[False]"] by auto

lemma mul_ok_frame:
  assumes "mul_ok s x y p s'" "valid s q"
  shows "valid s' q \<and> den s' q = den s q \<and> deref s' q = deref s q"
proof -
  from mul_ok_ext [OF assms(1)] obtain new where s': "s' = s\<lparr>all_reps := all_reps s @ new\<rparr>"
    by blast
  from valid_deref [OF assms(2)] obtain r where "deref s q = Some r" by blast
  with assms(2) show ?thesis
    unfolding s' by (simp add: valid_ext den_ext deref_append)
qed

text \<open>
  Claim C10. For canonical representatives \<open>x\<close> and \<open>y\<close> (pointers into a store that
  satisfies the invariant), \<open>mul\<close> returns, and the \<^verbatim>\<open>swapped\<close> flag of the
  representative it returns is the exclusive-or of the flags of \<open>x\<close> and \<open>y\<close>.
\<close>

theorem mul_swap_parity:
  assumes "store_ok s" "deref s x = Some rx" "deref s y = Some ry"
  shows "\<exists>p s' r. mul s x y = Some (p, s') \<and> deref s' p = Some r \<and>
           swapped r = (swapped rx \<noteq> swapped ry)"
proof -
  have vx: "valid s x" and vy: "valid s y"
    using assms(2,3) by (auto intro: deref_valid)
  from mul_spec [OF assms(1) vx vy] obtain p s'
    where m: "mul s x y = Some (p, s')" and ok: "mul_ok s x y p s'" by blast
  from ok have oks': "store_ok s'" and vp: "valid s' p"
    and d: "den s' p = pmul (den s x) (den s y)"
    by (simp_all add: mul_ok_def)
  from valid_deref [OF vp] obtain r where r: "deref s' p = Some r" by blast
  from pch_den [OF oks' r] d have "swapped r = fst (pch (pmul (den s x) (den s y)))" by simp
  also have "\<dots> = (swapped rx \<noteq> swapped ry)"
    using pch_den [OF assms(1,2)] pch_den [OF assms(1,3)] by (simp add: swap_pmul)
  finally show ?thesis using m r by blast
qed

theorem mul_swap_parity_witness:
  "store_ok init_state \<and>
   deref init_state Addr_a = Some (grig_a init_state) \<and>
   deref init_state Addr_b = Some (grig_b init_state) \<and>
   (\<exists>p s' r. mul init_state Addr_a Addr_b = Some (p, s') \<and> deref s' p = Some r \<and>
      swapped r = (swapped (grig_a init_state) \<noteq> swapped (grig_b init_state)))"
  using mul_swap_parity [OF store_ok_init, of Addr_a "grig_a init_state" Addr_b "grig_b init_state"]
    store_ok_init
  by simp

text \<open>
  Claim C3, as the code has it. \<open>mul\<close> writes to no representative that existed before
  the call. When the representative it returns existed before the call (so on every fast
  path, and whenever the triple of the result is that of a static object or was interned
  already) the store is left as it was, and the result keeps the \<^verbatim>\<open>last\<close> it had. When
  the representative it returns is created by the call, its \<^verbatim>\<open>last\<close> is that of \<open>y\<close>.
\<close>

theorem mul_last_effect:
  assumes "store_ok s" "valid s x" "deref s y = Some ry"
  shows "\<exists>p s'. mul s x y = Some (p, s') \<and>
           (\<forall>q. valid s q \<longrightarrow> deref s' q = deref s q) \<and>
           (if valid s p then s' = s
            else \<exists>r. deref s' p = Some r \<and> last_r r = last_r ry)"
proof -
  have vy: "valid s y" using assms(3) by (rule deref_valid)
  from mul_spec [OF assms(1,2) vy] obtain p s'
    where m: "mul s x y = Some (p, s')" and ok: "mul_ok s x y p s'" by blast
  have frame: "\<forall>q. valid s q \<longrightarrow> deref s' q = deref s q"
    using mul_ok_frame [OF ok] by blast
  from ok obtain new where s': "s' = s\<lparr>all_reps := all_reps s @ new\<rparr>"
    and vp: "valid s' p"
    and l: "new = [] \<or> p = Addr_node (length (all_reps s') - 1) \<and>
          (\<exists>ry. deref s y = Some ry \<and> last_r (last new) = last_r ry)"
    by (auto simp: mul_ok_def)
  have "if valid s p then s' = s else \<exists>r. deref s' p = Some r \<and> last_r r = last_r ry"
  proof (cases "new = []")
    case True
    with s' vp show ?thesis by simp
  next
    case False
    with l assms(3) have p: "p = Addr_node (length (all_reps s') - 1)"
      and lr: "last_r (last new) = last_r ry" by auto
    from False obtain n where n: "length new = Suc n" by (cases new) auto
    with p have p': "p = Addr_node (length (all_reps s) + n)" by (simp add: s')
    then have nv: "\<not> valid s p" by simp
    from False n have "(all_reps s @ new) ! (length (all_reps s) + n) = last new"
      by (simp add: nth_append last_conv_nth)
    with n p' lr have "\<exists>r. deref s' p = Some r \<and> last_r r = last_r ry"
      by (simp add: s')
    with nv show ?thesis by simp
  qed
  with m frame show ?thesis by blast
qed

text \<open>
  The claim as stated fails on a fast path and on an interned result. \<^verbatim>\<open>mul(b, c)\<close> is
  the static \<^verbatim>\<open>grig_d\<close>, whose \<^verbatim>\<open>last\<close> stays d, not c. And after \<^verbatim>\<open>ab = mul(a, b)\<close>
  created the triple (true, a, c) with \<^verbatim>\<open>last\<close> b, the product \<^verbatim>\<open>mul(mul(a, d), c)\<close>
  finds that same object and leaves its \<^verbatim>\<open>last\<close> at b, while the label of \<open>y\<close> is c.
\<close>

theorem mul_last_counterexample:
  "mul init_state Addr_b Addr_c = Some (Addr_d, init_state) \<and>
   map_option last_r (deref init_state Addr_d) = Some ch_d \<and>
   map_option last_r (deref init_state Addr_c) = Some ch_c \<and>
   do { (ab, s1) \<leftarrow> mul init_state Addr_a Addr_b;
        (ad, s2) \<leftarrow> mul s1 Addr_a Addr_d;
        (p, s3) \<leftarrow> mul s2 ad Addr_c;
        Some (p = ab, s3 = s2, map_option last_r (deref s3 p), map_option last_r (deref s3 Addr_c)) }
   = Some (True, True, Some ch_b, Some ch_c)"
  by code_simp

lemma mul_a_b:
  "mul init_state Addr_a Addr_b =
     Some (Addr_node 0, init_state\<lparr>all_reps := [mk_rep True Addr_a Addr_c ch_b]\<rparr>)"
  by code_simp

theorem mul_last_effect_witness:
  "store_ok init_state \<and> valid init_state Addr_a \<and>
   deref init_state Addr_b = Some (grig_b init_state) \<and>
   mul init_state Addr_a Addr_b =
     Some (Addr_node 0, init_state\<lparr>all_reps := [mk_rep True Addr_a Addr_c ch_b]\<rparr>) \<and>
   \<not> valid init_state (Addr_node 0) \<and>
   map_option last_r (deref (init_state\<lparr>all_reps := [mk_rep True Addr_a Addr_c ch_b]\<rparr>) (Addr_node 0))
     = Some (last_r (grig_b init_state))"
  using mul_last_effect [OF store_ok_init, of Addr_a Addr_b "grig_b init_state"] store_ok_init mul_a_b
  by (simp add: init_state_def mk_rep_def)

lemma mul_ok_chain:
  assumes "mul_ok s x y p s'" "valid s q"
  shows "valid s' q" "den s' q = den s q"
  using mul_ok_frame [OF assms] by simp_all

lemma mul_assoc_state:
  assumes ok: "store_ok s" and vx: "valid s x" and vy: "valid s y" and vz: "valid s z"
  shows "\<exists>xy s1 l s2 yz s3 r s4.
           mul s x y = Some (xy, s1) \<and> mul s1 xy z = Some (l, s2) \<and>
           mul s2 y z = Some (yz, s3) \<and> mul s3 x yz = Some (r, s4) \<and> l = r"
proof -
  from mul_spec [OF ok vx vy] obtain xy s1
    where m1: "mul s x y = Some (xy, s1)" and ok1: "mul_ok s x y xy s1" by blast
  from ok1 have oks1: "store_ok s1" and vxy: "valid s1 xy"
    and dxy: "den s1 xy = pmul (den s x) (den s y)" by (simp_all add: mul_ok_def)
  note z1 = mul_ok_chain [OF ok1 vz] and y1 = mul_ok_chain [OF ok1 vy] and x1 = mul_ok_chain [OF ok1 vx]
  from mul_spec [OF oks1 vxy z1(1)] obtain l s2
    where m2: "mul s1 xy z = Some (l, s2)" and ok2: "mul_ok s1 xy z l s2" by blast
  from ok2 have oks2: "store_ok s2" and vl: "valid s2 l"
    and dl: "den s2 l = pmul (den s1 xy) (den s1 z)" by (simp_all add: mul_ok_def)
  note z2 = mul_ok_chain [OF ok2 z1(1)] and y2 = mul_ok_chain [OF ok2 y1(1)]
    and x2 = mul_ok_chain [OF ok2 x1(1)]
  from mul_spec [OF oks2 y2(1) z2(1)] obtain yz s3
    where m3: "mul s2 y z = Some (yz, s3)" and ok3: "mul_ok s2 y z yz s3" by blast
  from ok3 have oks3: "store_ok s3" and vyz: "valid s3 yz"
    and dyz: "den s3 yz = pmul (den s2 y) (den s2 z)" by (simp_all add: mul_ok_def)
  note x3 = mul_ok_chain [OF ok3 x2(1)] and l3 = mul_ok_chain [OF ok3 vl]
  from mul_spec [OF oks3 x3(1) vyz] obtain r s4
    where m4: "mul s3 x yz = Some (r, s4)" and ok4: "mul_ok s3 x yz r s4" by blast
  from ok4 have oks4: "store_ok s4" and vr: "valid s4 r"
    and dr: "den s4 r = pmul (den s3 x) (den s3 yz)" by (simp_all add: mul_ok_def)
  note l4 = mul_ok_chain [OF ok4 l3(1)]
  have "den s4 l = pmul (pmul (den s x) (den s y)) (den s z)"
    using l4(2) l3(2) dl dxy z1(2) by simp
  also have "\<dots> = pmul (den s x) (pmul (den s y) (den s z))"
    by (rule pmul_assoc) (simp_all add: nf_den ok vx vy vz)
  also have "\<dots> = den s4 r"
    using dr dyz x3(2) x2(2) x1(2) y2(2) y1(2) z2(2) z1(2) by simp
  finally have "l = r"
    using den_inj [OF oks4 l4(1) vr] by simp
  with m1 m2 m3 m4 show ?thesis by blast
qed

subsection \<open>Writing the mutable fields\<close>

text \<open>
  \<open>update_rep s p f\<close> writes through the pointer \<open>p\<close>. The source writes only the
  mutable fields \<^verbatim>\<open>last\<close>, \<^verbatim>\<open>visited\<close> and \<^verbatim>\<open>len\<close>, which are no part of the tie.
\<close>

fun update_rep :: "state \<Rightarrow> prep \<Rightarrow> (rep \<Rightarrow> rep) \<Rightarrow> state" where
  "update_rep s Addr_I f = s\<lparr>grig_I := f (grig_I s)\<rparr>"
| "update_rep s Addr_a f = s\<lparr>grig_a := f (grig_a s)\<rparr>"
| "update_rep s Addr_b f = s\<lparr>grig_b := f (grig_b s)\<rparr>"
| "update_rep s Addr_c f = s\<lparr>grig_c := f (grig_c s)\<rparr>"
| "update_rep s Addr_d f = s\<lparr>grig_d := f (grig_d s)\<rparr>"
| "update_rep s (Addr_node i) f = s\<lparr>all_reps := (all_reps s)[i := f (all_reps s ! i)]\<rparr>"

lemma map_tie_update:
  "tie (f (xs ! i)) = tie (xs ! i) \<Longrightarrow> map tie (xs[i := f (xs ! i)]) = map tie xs"
  by (cases "i < length xs") (simp_all add: map_update list_update_same_conv list_update_beyond)

lemma update_rep_ties:
  assumes "\<And>r. tie (f r) = tie r"
  shows "map tie (all_reps (update_rep s p f)) = map tie (all_reps s)"
    and "statics_ok (update_rep s p f) = statics_ok s"
    and "length (all_reps (update_rep s p f)) = length (all_reps s)"
  using assms by (cases p; simp add: map_tie_update statics_ok_def)+

lemma store_ok_ties_eq:
  assumes "map tie (all_reps s') = map tie (all_reps s)" "statics_ok s' = statics_ok s"
  shows "store_ok s' = store_ok s"
proof -
  have a: "list_all (\<lambda>r. tie r \<notin> set fixed_ties) xs = list_all (\<lambda>t. t \<notin> set fixed_ties) (map tie xs)" for xs
    by (induction xs) auto
  show ?thesis
    by (simp only: store_ok_def store_inv_def a assms)
qed

lemma update_rep_ok:
  assumes "\<And>r. tie (f r) = tie r"
  shows "store_ok (update_rep s p f) = store_ok s"
    and "den (update_rep s p f) q = den s q"
    and "valid (update_rep s p f) q = valid s q"
  using update_rep_ties [of f s p, OF assms] store_ok_ties_eq [of "update_rep s p f" s]
  by (simp_all add: den_def valid_in_store)

lemma deref_update_rep:
  "valid s p \<Longrightarrow> deref (update_rep s p f) q = (if q = p then map_option f (deref s p) else deref s q)"
  by (cases p; cases q) auto

lemma mul_known:
  assumes ok: "store_ok s" and v: "valid s x" "valid s y" "valid s p"
    and d: "den s p = pmul (den s x) (den s y)"
  shows "mul s x y = Some (p, s)"
proof -
  from mul_spec [OF ok v(1,2)] obtain p' s'
    where m: "mul s x y = Some (p', s')" and ok': "mul_ok s x y p' s'" by blast
  from mul_ok_frame [OF ok' v(3)] have vp: "valid s' p" and dp: "den s' p = den s p" by simp_all
  from ok' have oks': "store_ok s'" and vp': "valid s' p'"
    and d': "den s' p' = pmul (den s x) (den s y)" by (simp_all add: mul_ok_def)
  from den_inj [OF oks' vp' vp] d d' dp have pp: "p' = p" by simp
  from ok' obtain new where s': "s' = s\<lparr>all_reps := all_reps s @ new\<rparr>"
    and l: "new = [] \<or> p' = Addr_node (length (all_reps s') - 1)"
    by (auto simp: mul_ok_def)
  have "new = []"
  proof (rule ccontr)
    assume ne: "new \<noteq> []"
    then obtain n where n: "length new = Suc n" by (cases new) auto
    with l ne pp s' have "p = Addr_node (length (all_reps s) + n)" by simp
    with v(3) show False by simp
  qed
  with s' have "s' = s" by simp
  with m pp show ?thesis by simp
qed

subsection \<open>Lazy graph adapter: \<^verbatim>\<open>hrmap_grigorchuk\<close>\<close>

text \<open>
  The host's \<^verbatim>\<open>heptagon*\<close> is opaque to the adapter: a heptagon is named by the number
  of its allocation, and \<open>heptagons\<close> counts the allocations of \<^verbatim>\<open>tailored_alloc\<close>, so
  that a new heptagon differs from every earlier one. The fields of the heptagon and the
  host's \<^verbatim>\<open>connect\<close> are not modelled. \<^verbatim>\<open>dec[p]\<close> on a heptagon that is not bound
  would insert a null pointer, which the code then reads through: that is \<open>None\<close>.
  \<open>label d\<close> is \<^verbatim>\<open>"ACb"[d]\<close>: the three letters, the terminating zero at 3, and no
  value beyond. \<open>step_product\<close> is the \<^verbatim>\<open>switch\<close> of \<^verbatim>\<open>create_step\<close>, which has no
  default case.
\<close>

type_synonym heptagon = nat

record hrmap_grigorchuk =
  dec :: "heptagon \<rightharpoonup> prep"
  enc :: "prep \<rightharpoonup> heptagon"
  heptagons :: nat

definition gtie :: "hrmap_grigorchuk \<Rightarrow> heptagon \<Rightarrow> prep \<Rightarrow> hrmap_grigorchuk" where
  "gtie m h p = m\<lparr>dec := (dec m)(h \<mapsto> p), enc := (enc m)(p \<mapsto> h)\<rparr>"

definition label :: "int \<Rightarrow> cchar option" where
  "label d =
     (if d = 0 then Some 0x41 else if d = 1 then Some 0x43 else if d = 2 then Some 0x62
      else if d = 3 then Some 0 else None)"

definition step_product :: "state \<Rightarrow> prep \<Rightarrow> int \<Rightarrow> (prep \<times> state) option" where
  "step_product s pr d =
     (if d = 0 then do { (q, s1) \<leftarrow> mul s pr Addr_a; mul s1 q Addr_c }
      else if d = 1 then do { (q, s1) \<leftarrow> mul s pr Addr_c; mul s1 q Addr_a }
      else if d = 2 then mul s pr Addr_b
      else Some (pr, s))"

definition create_step ::
  "state \<times> hrmap_grigorchuk \<Rightarrow> heptagon \<Rightarrow> int \<Rightarrow> (heptagon \<times> state \<times> hrmap_grigorchuk) option" where
  "create_step sm p d =
     (case sm of (s, m) \<Rightarrow> do {
        pr \<leftarrow> dec m p;
        (pr, s) \<leftarrow> step_product s pr d;
        (case enc m pr of
           Some h \<Rightarrow> Some (h, s, m)
         | None \<Rightarrow> do {
             l \<leftarrow> label d;
             r \<leftarrow> deref s pr;
             let s = update_rep s pr (\<lambda>r. r\<lparr>last_r := l\<rparr>);
             let h = heptagons m;
             Some (h, s, gtie (m\<lparr>heptagons := Suc h\<rparr>) h pr)
           })
      })"

text \<open>The constructor binds the origin, heptagon 0, to \<^verbatim>\<open>grig_I\<close>.\<close>

definition new_hrmap :: hrmap_grigorchuk where
  "new_hrmap = gtie \<lparr>dec = Map.empty, enc = Map.empty, heptagons = 1\<rparr> 0 Addr_I"

text \<open>
  The adapter's invariant: the store is well formed, every bound heptagon was allocated and
  is bound to a pointer into the store, and \<open>dec\<close> and \<open>enc\<close> are inverse to each other.
\<close>

definition adapter_ok :: "state \<Rightarrow> hrmap_grigorchuk \<Rightarrow> bool" where
  "adapter_ok s m =
     (store_ok s \<and>
      (\<forall>h pr. dec m h = Some pr \<longrightarrow> h < heptagons m \<and> valid s pr \<and> enc m pr = Some h) \<and>
      (\<forall>pr h. enc m pr = Some h \<longrightarrow> dec m h = Some pr))"

lemma adapter_ok_new: "store_ok s \<Longrightarrow> adapter_ok s new_hrmap"
  by (simp add: adapter_ok_def new_hrmap_def gtie_def)

definition gen_word :: "int \<Rightarrow> elt \<Rightarrow> elt" where
  "gen_word d e =
     (if d = 0 then pmul (pmul e EA) EC else if d = 1 then pmul (pmul e EC) EA else pmul e EB)"

definition mid_word :: "int \<Rightarrow> elt \<Rightarrow> elt" where
  "mid_word d e = (if d = 0 then pmul e EA else if d = 1 then pmul e EC else e)"

lemma ext_trans:
  "s1 = s\<lparr>all_reps := all_reps s @ n1\<rparr> \<Longrightarrow> s2 = s1\<lparr>all_reps := all_reps s1 @ n2\<rparr> \<Longrightarrow>
     s2 = s\<lparr>all_reps := all_reps s @ (n1 @ n2)\<rparr>"
  by simp

lemma rank0_valid: "rank g = 0 \<Longrightarrow> valid t g"
  by (cases g) simp_all

lemma rank0_den: "rank g = 0 \<Longrightarrow> den t g = den1 [] g"
  by (cases g) simp_all

lemma mul_two:
  assumes ok: "store_ok s" and v: "valid s pr" and g: "rank g1 = 0" "rank g2 = 0"
  shows "\<exists>p s' q. (do { (q, s1) \<leftarrow> mul s pr g1; mul s1 q g2 }) = Some (p, s') \<and>
           store_ok s' \<and> valid s' p \<and> valid s' q \<and>
           (\<exists>new. s' = s\<lparr>all_reps := all_reps s @ new\<rparr>) \<and>
           den s' q = pmul (den s pr) (den s g1) \<and>
           den s' p = pmul (pmul (den s pr) (den s g1)) (den s g2)"
proof -
  note vg = rank0_valid [OF g(1)] rank0_valid [OF g(2)]
  note dg = rank0_den [OF g(1)] rank0_den [OF g(2)]
  from mul_spec [OF ok v vg(1)] obtain q s1
    where m1: "mul s pr g1 = Some (q, s1)" and ok1: "mul_ok s pr g1 q s1" by blast
  from ok1 have oks1: "store_ok s1" and vq: "valid s1 q"
    and dq: "den s1 q = pmul (den s pr) (den s g1)" by (simp_all add: mul_ok_def)
  from mul_spec [OF oks1 vq vg(2)] obtain p s2
    where m2: "mul s1 q g2 = Some (p, s2)" and ok2: "mul_ok s1 q g2 p s2" by blast
  from ok2 have oks2: "store_ok s2" and vp: "valid s2 p"
    and dp: "den s2 p = pmul (den s1 q) (den s1 g2)" by (simp_all add: mul_ok_def)
  from mul_ok_ext [OF ok1] obtain n1 where e1: "s1 = s\<lparr>all_reps := all_reps s @ n1\<rparr>" by blast
  from mul_ok_ext [OF ok2] obtain n2 where e2: "s2 = s1\<lparr>all_reps := all_reps s1 @ n2\<rparr>" by blast
  from ext_trans [OF e1 e2] have ext: "\<exists>new. s2 = s\<lparr>all_reps := all_reps s @ new\<rparr>" by blast
  from mul_ok_frame [OF ok2 vq] have q2: "valid s2 q" "den s2 q = den s1 q" by simp_all
  from m1 m2 have "(do { (q, s1) \<leftarrow> mul s pr g1; mul s1 q g2 }) = Some (p, s2)" by simp
  moreover have "den s2 p = pmul (pmul (den s pr) (den s g1)) (den s g2)"
    using dp dq by (simp add: dg)
  moreover have "den s2 q = pmul (den s pr) (den s g1)"
    using q2 dq by simp
  ultimately show ?thesis using oks2 vp q2(1) ext by blast
qed

lemma mul_two_known:
  assumes ok: "store_ok t" and v: "valid t pr" "valid t q" "valid t p" and g: "rank g1 = 0" "rank g2 = 0"
    and dq: "den t q = pmul (den t pr) (den t g1)"
    and dp: "den t p = pmul (pmul (den t pr) (den t g1)) (den t g2)"
  shows "(do { (q, s1) \<leftarrow> mul t pr g1; mul s1 q g2 }) = Some (p, t)"
proof -
  note vg = rank0_valid [OF g(1), of t] rank0_valid [OF g(2), of t]
  from mul_known [OF ok v(1) vg(1) v(2) dq] have a: "mul t pr g1 = Some (q, t)" .
  from dp dq have "den t p = pmul (den t q) (den t g2)" by simp
  from mul_known [OF ok v(2) vg(2) v(3) this] have b: "mul t q g2 = Some (p, t)" .
  from a b show ?thesis by simp
qed

lemma step_product_total:
  assumes ok: "store_ok s" and v: "valid s pr" and d: "d = 0 \<or> d = 1 \<or> d = 2"
  shows "\<exists>p s' q. step_product s pr d = Some (p, s') \<and> store_ok s' \<and> valid s' p \<and> valid s' q \<and>
           (\<exists>new. s' = s\<lparr>all_reps := all_reps s @ new\<rparr>) \<and>
           den s' q = mid_word d (den s pr) \<and> den s' p = gen_word d (den s pr)"
  using d
proof (elim disjE)
  assume "d = 0"
  with mul_two [OF ok v, of Addr_a Addr_c] show ?thesis
    by (simp add: step_product_def gen_word_def mid_word_def)
next
  assume "d = 1"
  with mul_two [OF ok v, of Addr_c Addr_a] show ?thesis
    by (simp add: step_product_def gen_word_def mid_word_def)
next
  assume d2: "d = 2"
  have vb: "valid s Addr_b" by simp
  from mul_spec [OF ok v vb] obtain p s1
    where m1: "mul s pr Addr_b = Some (p, s1)" and ok1: "mul_ok s pr Addr_b p s1" by blast
  from ok1 have "store_ok s1" "valid s1 p" "den s1 p = pmul (den s pr) EB"
    by (simp_all add: mul_ok_def)
  moreover from mul_ok_frame [OF ok1 v] have "valid s1 pr" "den s1 pr = den s pr" by simp_all
  ultimately show ?thesis
    using m1 mul_ok_ext [OF ok1] d2
    by (auto simp: step_product_def gen_word_def mid_word_def)
qed

lemma step_product_known:
  assumes ok: "store_ok t" and v: "valid t pr" "valid t q" "valid t p" and d: "d = 0 \<or> d = 1 \<or> d = 2"
    and dq: "den t q = mid_word d (den t pr)"
    and dp: "den t p = gen_word d (den t pr)"
  shows "step_product t pr d = Some (p, t)"
  using d
proof (elim disjE)
  assume "d = 0"
  with mul_two_known [OF ok v, of Addr_a Addr_c] dq dp show ?thesis
    by (simp add: step_product_def gen_word_def mid_word_def)
next
  assume "d = 1"
  with mul_two_known [OF ok v, of Addr_c Addr_a] dq dp show ?thesis
    by (simp add: step_product_def gen_word_def mid_word_def)
next
  assume d2: "d = 2"
  with dp have "den t p = pmul (den t pr) (den t Addr_b)" by (simp add: gen_word_def)
  from mul_known [OF ok v(1) _ v(3) this] d2 show ?thesis
    by (simp add: step_product_def)
qed

lemma adapter_ok_bound:
  assumes "adapter_ok s m" "s' = s\<lparr>all_reps := all_reps s @ new\<rparr>" "store_ok s'"
  shows "adapter_ok s' m"
proof -
  have "valid s' q" if "valid s q" for q
    using valid_ext [OF that, of new] assms(2) by simp
  with assms(1,3) show ?thesis
    unfolding adapter_ok_def by blast
qed

lemma adapter_ok_gtie:
  assumes a: "adapter_ok s m" and n: "enc m pn = None" and v: "valid s pn"
    and s1: "store_ok s1" "\<And>q. valid s1 q = valid s q"
  shows "adapter_ok s1 (gtie (m\<lparr>heptagons := Suc (heptagons m)\<rparr>) (heptagons m) pn)"
proof -
  define h0 where "h0 = heptagons m"
  define m1 where "m1 = gtie (m\<lparr>heptagons := Suc h0\<rparr>) h0 pn"
  have m1: "dec m1 = (dec m)(h0 \<mapsto> pn)" "enc m1 = (enc m)(pn \<mapsto> h0)" "heptagons m1 = Suc h0"
    by (simp_all add: m1_def gtie_def)
  from a have d: "\<And>h pr. dec m h = Some pr \<Longrightarrow> h < h0 \<and> valid s pr \<and> enc m pr = Some h"
    and e: "\<And>pr h. enc m pr = Some h \<Longrightarrow> dec m h = Some pr"
    unfolding adapter_ok_def h0_def by blast+
  have 1: "h < heptagons m1 \<and> valid s1 pr \<and> enc m1 pr = Some h" if "dec m1 h = Some pr" for h pr
  proof (cases "h = h0")
    case True
    with that have "pr = pn" by (simp add: m1)
    with True v s1(2) show ?thesis by (simp add: m1)
  next
    case False
    with that have dm: "dec m h = Some pr" by (simp add: m1)
    from d [OF dm] have "h < h0" "valid s pr" "enc m pr = Some h" by simp_all
    moreover from this(3) n have "pr \<noteq> pn" by auto
    ultimately show ?thesis using s1(2) by (simp add: m1)
  qed
  have 2: "dec m1 h = Some pr" if "enc m1 pr = Some h" for h pr
  proof (cases "pr = pn")
    case True
    with that show ?thesis by (simp add: m1)
  next
    case False
    with that have em: "enc m pr = Some h" by (simp add: m1)
    from e [OF em] have dm: "dec m h = Some pr" .
    from d [OF dm] have "h \<noteq> h0" by simp
    with dm show ?thesis by (simp add: m1)
  qed
  have "adapter_ok s1 m1"
    unfolding adapter_ok_def
  proof (intro conjI allI impI)
    show "store_ok s1" by (rule s1(1))
  next
    fix h pr assume "dec m1 h = Some pr"
    from 1 [OF this] show "h < heptagons m1" "valid s1 pr" "enc m1 pr = Some h" by simp_all
  next
    fix pr h assume "enc m1 pr = Some h"
    then show "dec m1 h = Some pr" by (rule 2)
  qed
  then show ?thesis by (simp add: m1_def h0_def)
qed

text \<open>
  A run of calls of \<open>create_step\<close>, one per pair of a heptagon and a direction, whatever
  heptagons they return. The run has no result when one of its calls has none.
\<close>

fun run_steps ::
  "state \<times> hrmap_grigorchuk \<Rightarrow> (heptagon \<times> int) list \<Rightarrow> (state \<times> hrmap_grigorchuk) option" where
  "run_steps sm [] = Some sm"
| "run_steps sm (c # cs) = do { (h, sm1) \<leftarrow> create_step sm (fst c) (snd c); run_steps sm1 cs }"

text \<open>
  What a call keeps: the pointers into the store with their values, and the bindings of
  \<open>dec\<close> and \<open>enc\<close>. What it establishes, \<open>step_known\<close>: the store holds the products of
  the call, and the last of them is bound to the heptagon returned.
\<close>

definition grows :: "state \<Rightarrow> hrmap_grigorchuk \<Rightarrow> state \<Rightarrow> hrmap_grigorchuk \<Rightarrow> bool" where
  "grows s m s1 m1 =
     ((\<forall>g. valid s g \<longrightarrow> valid s1 g \<and> den s1 g = den s g) \<and>
      (\<forall>h g. dec m h = Some g \<longrightarrow> dec m1 h = Some g) \<and>
      (\<forall>g h. enc m g = Some h \<longrightarrow> enc m1 g = Some h))"

definition step_known :: "state \<Rightarrow> hrmap_grigorchuk \<Rightarrow> heptagon \<Rightarrow> int \<Rightarrow> heptagon \<Rightarrow> bool" where
  "step_known s m p d h =
     (\<exists>pr q pn. dec m p = Some pr \<and> valid s pr \<and> valid s q \<and> valid s pn \<and>
        den s q = mid_word d (den s pr) \<and> den s pn = gen_word d (den s pr) \<and> enc m pn = Some h)"

lemma grows_refl: "grows s m s m"
  by (simp add: grows_def)

lemma grows_trans:
  assumes "grows s m s1 m1" "grows s1 m1 s2 m2"
  shows "grows s m s2 m2"
  unfolding grows_def
proof (intro conjI allI impI)
  fix g assume v: "valid s g"
  with assms(1) have v1: "valid s1 g" and d1: "den s1 g = den s g"
    unfolding grows_def by blast+
  from v1 assms(2) have "valid s2 g" and "den s2 g = den s1 g"
    unfolding grows_def by blast+
  with d1 show "valid s2 g" "den s2 g = den s g" by simp_all
next
  fix h g assume "dec m h = Some g"
  with assms(1) have "dec m1 h = Some g" unfolding grows_def by blast
  with assms(2) show "dec m2 h = Some g" unfolding grows_def by blast
next
  fix g h assume "enc m g = Some h"
  with assms(1) have "enc m1 g = Some h" unfolding grows_def by blast
  with assms(2) show "enc m2 g = Some h" unfolding grows_def by blast
qed

lemma step_known_grows:
  assumes k: "step_known s m p d h" and g: "grows s m s1 m1"
  shows "step_known s1 m1 p d h"
proof -
  from k obtain pr q pn where b: "dec m p = Some pr" and v: "valid s pr" "valid s q" "valid s pn"
    and dq: "den s q = mid_word d (den s pr)" and dp: "den s pn = gen_word d (den s pr)"
    and e: "enc m pn = Some h"
    unfolding step_known_def by blast
  from g b have b1: "dec m1 p = Some pr" unfolding grows_def by blast
  from g e have e1: "enc m1 pn = Some h" unfolding grows_def by blast
  from g v(1) have 1: "valid s1 pr" "den s1 pr = den s pr" unfolding grows_def by blast+
  from g v(2) have 2: "valid s1 q" "den s1 q = den s q" unfolding grows_def by blast+
  from g v(3) have 3: "valid s1 pn" "den s1 pn = den s pn" unfolding grows_def by blast+
  from dq dp 1 2 3 have "den s1 q = mid_word d (den s1 pr)" "den s1 pn = gen_word d (den s1 pr)"
    by simp_all
  with b1 e1 1(1) 2(1) 3(1) show ?thesis unfolding step_known_def by blast
qed

lemma step_known_call:
  assumes a: "adapter_ok s m" and d: "d = 0 \<or> d = 1 \<or> d = 2" and k: "step_known s m p d h"
  shows "create_step (s, m) p d = Some (h, s, m)"
proof -
  from k obtain pr q pn where b: "dec m p = Some pr" and v: "valid s pr" "valid s q" "valid s pn"
    and dq: "den s q = mid_word d (den s pr)" and dp: "den s pn = gen_word d (den s pr)"
    and e: "enc m pn = Some h"
    unfolding step_known_def by blast
  from a have ok: "store_ok s" unfolding adapter_ok_def by blast
  from step_product_known [OF ok v d dq dp] have "step_product s pr d = Some (pn, s)" .
  with b e show ?thesis by (simp add: create_step_def)
qed

lemma create_step_spec:
  assumes a: "adapter_ok s m" and b: "dec m p = Some pr" and d: "d = 0 \<or> d = 1 \<or> d = 2"
  shows "\<exists>h s1 m1. create_step (s, m) p d = Some (h, s1, m1) \<and> adapter_ok s1 m1 \<and>
           grows s m s1 m1 \<and> step_known s1 m1 p d h"
proof -
  from a b have ok: "store_ok s" and ph: "p < heptagons m" and v: "valid s pr"
    unfolding adapter_ok_def by blast+
  from a have bound: "\<And>h g. dec m h = Some g \<Longrightarrow> h < heptagons m"
    unfolding adapter_ok_def by blast
  from step_product_total [OF ok v d] obtain pn s' q new
    where sp: "step_product s pr d = Some (pn, s')" and ok': "store_ok s'"
      and vpn: "valid s' pn" and vq: "valid s' q"
      and ext: "s' = s\<lparr>all_reps := all_reps s @ new\<rparr>"
      and dq: "den s' q = mid_word d (den s pr)" and dpn: "den s' pn = gen_word d (den s pr)"
    by blast
  have keep: "valid s' g \<and> den s' g = den s g" if "valid s g" for g
    using that ext by (simp add: valid_ext den_ext)
  from keep [OF v] have vpr': "valid s' pr" and dpr': "den s' pr = den s pr" by simp_all
  note a' = adapter_ok_bound [OF a ext ok']
  show ?thesis
  proof (cases "enc m pn")
    case (Some h)
    with b sp have c1: "create_step (s, m) p d = Some (h, s', m)"
      by (simp add: create_step_def)
    have g: "grows s m s' m" unfolding grows_def using keep by blast
    have k: "step_known s' m p d h"
      unfolding step_known_def using b vpr' vq vpn dq dpn dpr' Some by auto
    from c1 a' g k show ?thesis by blast
  next
    case None
    from d obtain l where l: "label d = Some l" by (auto simp: label_def)
    from valid_deref [OF vpn] obtain r where r: "deref s' pn = Some r" by blast
    define s1 where "s1 = update_rep s' pn (\<lambda>r. r\<lparr>last_r := l\<rparr>)"
    define m1 where "m1 = gtie (m\<lparr>heptagons := Suc (heptagons m)\<rparr>) (heptagons m) pn"
    have t: "tie (r\<lparr>last_r := l\<rparr>) = tie r" for r :: rep by (simp add: tie_def)
    note u = update_rep_ok [of "\<lambda>r. r\<lparr>last_r := l\<rparr>" s' pn, OF t, folded s1_def]
    from b sp None l r have c1: "create_step (s, m) p d = Some (heptagons m, s1, m1)"
      by (simp add: create_step_def s1_def m1_def Let_def)
    have ok1: "store_ok s1" using u(1) ok' by simp
    have a1: "adapter_ok s1 m1"
      unfolding m1_def by (rule adapter_ok_gtie [OF a' None vpn ok1 u(3)])
    have b1: "dec m1 p = Some pr" using b ph by (simp add: m1_def gtie_def)
    have e1: "enc m1 pn = Some (heptagons m)" by (simp add: m1_def gtie_def)
    have g: "grows s m s1 m1"
      unfolding grows_def
    proof (intro conjI allI impI)
      fix g assume "valid s g"
      from keep [OF this] show "valid s1 g" "den s1 g = den s g" by (simp_all add: u(2,3))
    next
      fix h g assume dm: "dec m h = Some g"
      from bound [OF dm] have "h \<noteq> heptagons m" by simp
      with dm show "dec m1 h = Some g" by (simp add: m1_def gtie_def)
    next
      fix g h assume em: "enc m g = Some h"
      with None have "g \<noteq> pn" by auto
      with em show "enc m1 g = Some h" by (simp add: m1_def gtie_def)
    qed
    have k: "step_known s1 m1 p d (heptagons m)"
      unfolding step_known_def using b1 e1 vpr' vq vpn dq dpn dpr' by (auto simp: u(2,3))
    from c1 a1 g k show ?thesis by blast
  qed
qed

lemma create_step_None:
  assumes "adapter_ok s m" "d = 0 \<or> d = 1 \<or> d = 2" "create_step (s, m) p d = None"
  shows "dec m p = None"
proof (cases "dec m p")
  case (Some pr)
  from create_step_spec [OF assms(1) Some assms(2)] assms(3) show ?thesis by auto
qed simp

lemma create_step_Some:
  assumes "adapter_ok s m" "d = 0 \<or> d = 1 \<or> d = 2" "create_step (s, m) p d = Some (h, s1, m1)"
  shows "adapter_ok s1 m1 \<and> grows s m s1 m1"
proof (cases "dec m p")
  case None
  with assms(3) show ?thesis by (simp add: create_step_def)
next
  case (Some pr)
  from create_step_spec [OF assms(1) Some assms(2)] assms(3) show ?thesis by auto
qed

lemma run_steps_Some:
  assumes "adapter_ok s m" "\<forall>c\<in>set cs. snd c = 0 \<or> snd c = 1 \<or> snd c = 2"
    "run_steps (s, m) cs = Some (s2, m2)"
  shows "adapter_ok s2 m2 \<and> grows s m s2 m2"
  using assms
proof (induction cs arbitrary: s m)
  case Nil
  then show ?case by (simp add: grows_refl)
next
  case (Cons c cs)
  from Cons.prems(3) obtain h s1 m1
    where c1: "create_step (s, m) (fst c) (snd c) = Some (h, s1, m1)"
      and r: "run_steps (s1, m1) cs = Some (s2, m2)"
    by (auto simp: bind_eq_Some_conv)
  from Cons.prems(2) have dc: "snd c = 0 \<or> snd c = 1 \<or> snd c = 2"
    and dcs: "\<forall>c\<in>set cs. snd c = 0 \<or> snd c = 1 \<or> snd c = 2" by simp_all
  from create_step_Some [OF Cons.prems(1) dc c1] have a1: "adapter_ok s1 m1"
    and g1: "grows s m s1 m1" by simp_all
  from Cons.IH [OF a1 dcs r] have "adapter_ok s2 m2" and g2: "grows s1 m1 s2 m2" by simp_all
  with grows_trans [OF g1 g2] show ?case by simp
qed

lemma run_steps_None:
  assumes "adapter_ok s m" "\<forall>c\<in>set cs. snd c = 0 \<or> snd c = 1 \<or> snd c = 2"
    "run_steps (s, m) cs = None"
  shows "\<exists>cs1 c cs2 s' m'. cs = cs1 @ c # cs2 \<and> run_steps (s, m) cs1 = Some (s', m') \<and>
           dec m' (fst c) = None"
  using assms
proof (induction cs arbitrary: s m)
  case Nil
  then show ?case by simp
next
  case (Cons c cs)
  from Cons.prems(2) have dc: "snd c = 0 \<or> snd c = 1 \<or> snd c = 2"
    and dcs: "\<forall>c\<in>set cs. snd c = 0 \<or> snd c = 1 \<or> snd c = 2" by simp_all
  show ?case
  proof (cases "create_step (s, m) (fst c) (snd c)")
    case None
    from create_step_None [OF Cons.prems(1) dc None] have "dec m (fst c) = None" .
    then have "c # cs = [] @ c # cs \<and> run_steps (s, m) [] = Some (s, m) \<and> dec m (fst c) = None"
      by simp
    then show ?thesis by blast
  next
    case (Some res)
    obtain h s1 m1 where res: "res = (h, s1, m1)" by (cases res) auto
    from Some res have c1: "create_step (s, m) (fst c) (snd c) = Some (h, s1, m1)" by simp
    from create_step_Some [OF Cons.prems(1) dc c1] have a1: "adapter_ok s1 m1" by simp
    from Cons.prems(3) c1 have "run_steps (s1, m1) cs = None" by simp
    from Cons.IH [OF a1 dcs this] obtain cs1 c' cs2 s' m'
      where e: "cs = cs1 @ c' # cs2" and r: "run_steps (s1, m1) cs1 = Some (s', m')"
        and n: "dec m' (fst c') = None" by blast
    from e have "c # cs = (c # cs1) @ c' # cs2" by simp
    moreover from c1 r have "run_steps (s, m) (c # cs1) = Some (s', m')" by simp
    ultimately show ?thesis using n by blast
  qed
qed

text \<open>
  Claim C9. For a heptagon \<open>p\<close> that is bound in the adapter and a direction 0, 1 or 2,
  \<open>create_step\<close> returns a heptagon \<open>h\<close>, and a second call with the same heptagon and
  direction returns \<open>h\<close> again and changes nothing: no second heptagon is allocated. The
  first call keeps every binding of \<open>dec\<close> and \<open>enc\<close>. The same holds after any run of
  other calls with directions 0, 1 and 2 in between: the run keeps the bindings, and the
  call with \<open>p\<close> and \<open>d\<close> after it returns \<open>h\<close> and changes nothing. Such a run has a
  result unless one of its calls is on a heptagon that is not bound when it is made; in
  particular it has one when all its heptagons are bound after the first call. The
  adapter's invariant, with the bijection of \<open>dec\<close> and \<open>enc\<close>, holds throughout.
\<close>

theorem create_step_idempotent:
  assumes a: "adapter_ok s m" and b: "dec m p = Some pr" and d: "d = 0 \<or> d = 1 \<or> d = 2"
  shows "\<exists>h s1 m1. create_step (s, m) p d = Some (h, s1, m1) \<and>
           create_step (s1, m1) p d = Some (h, s1, m1) \<and> adapter_ok s1 m1 \<and>
           (\<forall>h' g. dec m h' = Some g \<longrightarrow> dec m1 h' = Some g) \<and>
           (\<forall>g h'. enc m g = Some h' \<longrightarrow> enc m1 g = Some h') \<and>
           (\<forall>cs s2 m2.
              (\<forall>c\<in>set cs. snd c = 0 \<or> snd c = 1 \<or> snd c = 2) \<and>
              run_steps (s1, m1) cs = Some (s2, m2) \<longrightarrow>
                create_step (s2, m2) p d = Some (h, s2, m2) \<and> adapter_ok s2 m2 \<and>
                (\<forall>h' g. dec m1 h' = Some g \<longrightarrow> dec m2 h' = Some g) \<and>
                (\<forall>g h'. enc m1 g = Some h' \<longrightarrow> enc m2 g = Some h')) \<and>
           (\<forall>cs.
              (\<forall>c\<in>set cs. snd c = 0 \<or> snd c = 1 \<or> snd c = 2) \<and>
              run_steps (s1, m1) cs = None \<longrightarrow>
                (\<exists>cs1 c cs2 s' m'. cs = cs1 @ c # cs2 \<and>
                   run_steps (s1, m1) cs1 = Some (s', m') \<and> dec m' (fst c) = None)) \<and>
           (\<forall>cs.
              (\<forall>c\<in>set cs. (snd c = 0 \<or> snd c = 1 \<or> snd c = 2) \<and> dec m1 (fst c) \<noteq> None) \<longrightarrow>
                run_steps (s1, m1) cs \<noteq> None)"
proof -
  from create_step_spec [OF a b d] obtain h s1 m1
    where c1: "create_step (s, m) p d = Some (h, s1, m1)" and a1: "adapter_ok s1 m1"
      and g1: "grows s m s1 m1" and k1: "step_known s1 m1 p d h" by blast
  have c2: "create_step (s1, m1) p d = Some (h, s1, m1)"
    by (rule step_known_call [OF a1 d k1])
  from g1 have keep_d: "\<forall>h' g. dec m h' = Some g \<longrightarrow> dec m1 h' = Some g"
    and keep_e: "\<forall>g h'. enc m g = Some h' \<longrightarrow> enc m1 g = Some h'"
    unfolding grows_def by blast+
  have later: "create_step (s2, m2) p d = Some (h, s2, m2) \<and> adapter_ok s2 m2 \<and>
      (\<forall>h' g. dec m1 h' = Some g \<longrightarrow> dec m2 h' = Some g) \<and>
      (\<forall>g h'. enc m1 g = Some h' \<longrightarrow> enc m2 g = Some h')"
    if ds: "\<forall>c\<in>set cs. snd c = 0 \<or> snd c = 1 \<or> snd c = 2"
      and r: "run_steps (s1, m1) cs = Some (s2, m2)" for cs s2 m2
  proof -
    from run_steps_Some [OF a1 ds r] have a2: "adapter_ok s2 m2" and g2: "grows s1 m1 s2 m2"
      by simp_all
    from step_known_call [OF a2 d step_known_grows [OF k1 g2]]
    have "create_step (s2, m2) p d = Some (h, s2, m2)" .
    moreover from g2 have "\<forall>h' g. dec m1 h' = Some g \<longrightarrow> dec m2 h' = Some g"
      and "\<forall>g h'. enc m1 g = Some h' \<longrightarrow> enc m2 g = Some h'"
      unfolding grows_def by blast+
    ultimately show ?thesis using a2 by blast
  qed
  have stuck: "\<exists>cs1 c cs2 s' m'. cs = cs1 @ c # cs2 \<and>
      run_steps (s1, m1) cs1 = Some (s', m') \<and> dec m' (fst c) = None"
    if ds: "\<forall>c\<in>set cs. snd c = 0 \<or> snd c = 1 \<or> snd c = 2"
      and r: "run_steps (s1, m1) cs = None" for cs
    by (rule run_steps_None [OF a1 ds r])
  have runs: "run_steps (s1, m1) cs \<noteq> None"
    if ds: "\<forall>c\<in>set cs. (snd c = 0 \<or> snd c = 1 \<or> snd c = 2) \<and> dec m1 (fst c) \<noteq> None" for cs
  proof
    assume r: "run_steps (s1, m1) cs = None"
    from ds have ds': "\<forall>c\<in>set cs. snd c = 0 \<or> snd c = 1 \<or> snd c = 2" by blast
    from run_steps_None [OF a1 ds' r] obtain cs1 c cs2 s' m'
      where e: "cs = cs1 @ c # cs2" and r1: "run_steps (s1, m1) cs1 = Some (s', m')"
        and n: "dec m' (fst c) = None" by blast
    from e ds have "dec m1 (fst c) \<noteq> None" by simp
    then obtain g where bg: "dec m1 (fst c) = Some g" by blast
    from e ds' have ds1: "\<forall>c\<in>set cs1. snd c = 0 \<or> snd c = 1 \<or> snd c = 2" by simp
    from run_steps_Some [OF a1 ds1 r1] have "grows s1 m1 s' m'" by simp
    with bg have "dec m' (fst c) = Some g" unfolding grows_def by blast
    with n show False by simp
  qed
  have l1: "\<forall>cs s2 m2.
      (\<forall>c\<in>set cs. snd c = 0 \<or> snd c = 1 \<or> snd c = 2) \<and>
      run_steps (s1, m1) cs = Some (s2, m2) \<longrightarrow>
        create_step (s2, m2) p d = Some (h, s2, m2) \<and> adapter_ok s2 m2 \<and>
        (\<forall>h' g. dec m1 h' = Some g \<longrightarrow> dec m2 h' = Some g) \<and>
        (\<forall>g h'. enc m1 g = Some h' \<longrightarrow> enc m2 g = Some h')"
    using later by blast
  have l2: "\<forall>cs.
      (\<forall>c\<in>set cs. snd c = 0 \<or> snd c = 1 \<or> snd c = 2) \<and>
      run_steps (s1, m1) cs = None \<longrightarrow>
        (\<exists>cs1 c cs2 s' m'. cs = cs1 @ c # cs2 \<and>
           run_steps (s1, m1) cs1 = Some (s', m') \<and> dec m' (fst c) = None)"
    using stuck by blast
  have l3: "\<forall>cs.
      (\<forall>c\<in>set cs. (snd c = 0 \<or> snd c = 1 \<or> snd c = 2) \<and> dec m1 (fst c) \<noteq> None) \<longrightarrow>
        run_steps (s1, m1) cs \<noteq> None"
    using runs by blast
  from c1 c2 a1 keep_d keep_e l1 l2 l3 show ?thesis
    by (intro exI [of _ h] exI [of _ s1] exI [of _ m1] conjI)
qed

lemma adapter_ok_init: "adapter_ok init_state new_hrmap"
  by (rule adapter_ok_new [OF store_ok_init])

text \<open>
  The first three calls on the origin of a new adapter over the initial store: direction 0
  allocates heptagon 1, direction 1 allocates heptagon 2, and direction 0 again returns
  heptagon 1.
\<close>

lemma step_product_init_0:
  "step_product init_state Addr_I 0 =
     Some (Addr_node 0, init_state\<lparr>all_reps := [mk_rep True Addr_a Addr_d ch_c]\<rparr>)"
  by code_simp

lemma step_product_init_1:
  "step_product (init_state\<lparr>all_reps := [mk_rep True Addr_a Addr_d 0x41]\<rparr>) Addr_I 1 =
     Some (Addr_node 1,
       init_state\<lparr>all_reps := [mk_rep True Addr_a Addr_d 0x41, mk_rep True Addr_d Addr_a ch_a]\<rparr>)"
  by code_simp

lemma create_step_init_0:
  "create_step (init_state, new_hrmap) 0 0 =
     Some (1, init_state\<lparr>all_reps := [mk_rep True Addr_a Addr_d 0x41]\<rparr>,
       gtie (new_hrmap\<lparr>heptagons := 2\<rparr>) 1 (Addr_node 0))"
  by (simp add: create_step_def step_product_init_0 new_hrmap_def gtie_def label_def mk_rep_def)

lemma create_step_init_1:
  "create_step (init_state\<lparr>all_reps := [mk_rep True Addr_a Addr_d 0x41]\<rparr>,
       gtie (new_hrmap\<lparr>heptagons := 2\<rparr>) 1 (Addr_node 0)) 0 1 =
     Some (2, init_state\<lparr>all_reps := [mk_rep True Addr_a Addr_d 0x41, mk_rep True Addr_d Addr_a 0x43]\<rparr>,
       gtie (gtie (new_hrmap\<lparr>heptagons := 3\<rparr>) 1 (Addr_node 0)) 2 (Addr_node 1))"
  by (simp add: create_step_def step_product_init_1 new_hrmap_def gtie_def label_def)
    (simp add: mk_rep_def)

theorem create_step_idempotent_witness:
  "adapter_ok init_state new_hrmap \<and> dec new_hrmap 0 = Some Addr_I \<and>
   (\<exists>s1 m1 s2 m2. create_step (init_state, new_hrmap) 0 0 = Some (1, s1, m1) \<and>
      create_step (s1, m1) 0 0 = Some (1, s1, m1) \<and>
      create_step (s1, m1) 0 1 = Some (2, s2, m2) \<and>
      run_steps (s1, m1) [(0, 1)] = Some (s2, m2) \<and>
      create_step (s2, m2) 0 0 = Some (1, s2, m2))"
proof -
  let ?s1 = "init_state\<lparr>all_reps := [mk_rep True Addr_a Addr_d 0x41]\<rparr>"
  let ?m1 = "gtie (new_hrmap\<lparr>heptagons := 2\<rparr>) 1 (Addr_node 0)"
  let ?s2 = "init_state\<lparr>all_reps := [mk_rep True Addr_a Addr_d 0x41, mk_rep True Addr_d Addr_a 0x43]\<rparr>"
  let ?m2 = "gtie (gtie (new_hrmap\<lparr>heptagons := 3\<rparr>) 1 (Addr_node 0)) 2 (Addr_node 1)"
  have b: "dec new_hrmap 0 = Some Addr_I" by (simp add: new_hrmap_def gtie_def)
  have r: "run_steps (?s1, ?m1) [(0, 1)] = Some (?s2, ?m2)"
    using create_step_init_1 by simp
  from create_step_idempotent [OF adapter_ok_init b, of 0] obtain h s1 m1
    where c1: "create_step (init_state, new_hrmap) 0 0 = Some (h, s1, m1)"
      and c2: "create_step (s1, m1) 0 0 = Some (h, s1, m1)"
      and l: "\<forall>cs s2 m2.
        (\<forall>c\<in>set cs. snd c = 0 \<or> snd c = 1 \<or> snd c = 2) \<and>
        run_steps (s1, m1) cs = Some (s2, m2) \<longrightarrow>
          create_step (s2, m2) 0 0 = Some (h, s2, m2) \<and> adapter_ok s2 m2 \<and>
          (\<forall>h' g. dec m1 h' = Some g \<longrightarrow> dec m2 h' = Some g) \<and>
          (\<forall>g h'. enc m1 g = Some h' \<longrightarrow> enc m2 g = Some h')"
    by auto
  from c1 have "Some (h, s1, m1) = Some (1, ?s1, ?m1)" by (simp only: create_step_init_0)
  then have e: "h = 1" "s1 = ?s1" "m1 = ?m1" by blast+
  from l [rule_format, of "[(0, 1)]" ?s2 ?m2] r e
  have c3: "create_step (?s2, ?m2) 0 0 = Some (1, ?s2, ?m2)" by simp
  from c1 c2 e create_step_init_1 r c3 adapter_ok_init b show ?thesis by blast
qed

subsection \<open>Cayley-layer enumerator: \<^verbatim>\<open>prepare\<close>\<close>

text \<open>
  The lambda \<^verbatim>\<open>visit\<close> of \<^verbatim>\<open>prepare\<close>, on the store and the vector \<^verbatim>\<open>all\<close>.
\<close>

definition visit :: "state \<times> prep list \<Rightarrow> prep \<Rightarrow> cchar \<Rightarrow> int \<Rightarrow> (state \<times> prep list) option" where
  "visit st x l d =
     (case st of (s, all) \<Rightarrow> do {
        r \<leftarrow> deref s x;
        if \<not> visited r
        then Some (update_rep s x (\<lambda>r. r\<lparr>visited := True, last_r := l, len := d\<rparr>), all @ [x])
        else Some (s, all)
      })"

text \<open>
  One line \<^verbatim>\<open>visit(mul(x, g), l, x->len + 1)\<close> of the loop. \<^verbatim>\<open>mul\<close> writes to no existing
  representative, so the order in which the arguments are evaluated does not matter.
  \<^verbatim>\<open>len\<close> is an \<^verbatim>\<open>int\<close>; it is at most the number of iterations, itself an \<^verbatim>\<open>int\<close>,
  so that the addition does not overflow and is modelled on the integers.
\<close>

definition expand :: "state \<times> prep list \<Rightarrow> prep \<Rightarrow> prep \<Rightarrow> cchar \<Rightarrow> (state \<times> prep list) option" where
  "expand st x g l =
     (case st of (s, all) \<Rightarrow> do {
        (p, s) \<leftarrow> mul s x g;
        rx \<leftarrow> deref s x;
        visit (s, all) p l (len rx + 1)
      })"

text \<open>
  The loop \<^verbatim>\<open>for(int i=0; i<grig_limit; i++)\<close>, as a recursion on the number of
  iterations that remain. \<^verbatim>\<open>all[i]\<close> beyond the end of the vector is undefined behaviour
  in the source and \<open>None\<close> here. The variables \<^verbatim>\<open>length\<close> and \<^verbatim>\<open>next\<close> only feed the
  progress line the loop prints, and are left out.
\<close>

fun prepare_loop ::
  "prep \<Rightarrow> prep \<Rightarrow> nat \<Rightarrow> nat \<Rightarrow> state \<times> prep list \<Rightarrow> (state \<times> prep list) option" where
  "prepare_loop ac ca 0 i st = Some st"
| "prepare_loop ac ca (Suc n) i st =
     (if i < length (snd st) then do {
        let x = snd st ! i;
        st \<leftarrow> expand st x Addr_b ch_b;
        st \<leftarrow> expand st x ac 0x41;
        st \<leftarrow> expand st x ca 0x43;
        prepare_loop ac ca n (Suc i) st
      } else None)"

text \<open>
  \<^verbatim>\<open>prepare\<close> up to the end of the traversal: the two derived generators, the visit of the
  identity and the loop. It returns \<^verbatim>\<open>ac\<close>, \<^verbatim>\<open>ca\<close>, the store and the vector \<^verbatim>\<open>all\<close>.
  The source goes on to multiply out the word badad and to print its decoding; that part
  reads and writes neither \<^verbatim>\<open>all\<close> nor a \<^verbatim>\<open>visited\<close> or \<^verbatim>\<open>len\<close> field and is not modelled.
\<close>

definition prepare :: "int \<Rightarrow> state \<Rightarrow> (prep \<times> prep \<times> state \<times> prep list) option" where
  "prepare grig_limit s =
     do {
       (ac, s) \<leftarrow> mul s Addr_a Addr_c;
       (ca, s) \<leftarrow> mul s Addr_c Addr_a;
       st \<leftarrow> visit (s, []) Addr_I 0 0;
       (s, all) \<leftarrow> prepare_loop ac ca (nat grig_limit) 0 st;
       Some (ac, ca, s, all)
     }"

definition len_at :: "state \<Rightarrow> prep \<Rightarrow> int" where
  "len_at s p = (case deref s p of Some r \<Rightarrow> len r | None \<Rightarrow> - 1)"

definition vis_at :: "state \<Rightarrow> prep \<Rightarrow> bool" where
  "vis_at s p = (case deref s p of Some r \<Rightarrow> visited r | None \<Rightarrow> False)"

definition expand_post ::
  "state \<Rightarrow> prep list \<Rightarrow> prep \<Rightarrow> prep \<Rightarrow> state \<Rightarrow> prep list \<Rightarrow> bool" where
  "expand_post s all x g s' all' =
     (store_ok s' \<and> (\<forall>q. valid s q \<longrightarrow> valid s' q \<and> den s' q = den s q) \<and>
      (\<forall>q \<in> set all. len_at s' q = len_at s q) \<and>
      (\<forall>q. valid s' q \<longrightarrow> vis_at s' q = (q \<in> set all')) \<and>
      (\<forall>q \<in> set all'. valid s' q) \<and> distinct all' \<and>
      (\<exists>p. valid s' p \<and> den s' p = pmul (den s x) (den s g) \<and>
         (all' = all \<and> p \<in> set all \<or>
          all' = all @ [p] \<and> p \<notin> set all \<and> len_at s' p = len_at s x + 1)))"

lemma deref_new:
  assumes "valid (s\<lparr>all_reps := all_reps s @ new\<rparr>) q" "\<not> valid s q"
  shows "\<exists>r \<in> set new. deref (s\<lparr>all_reps := all_reps s @ new\<rparr>) q = Some r"
proof (cases q)
  case (Addr_node k)
  with assms have k: "length (all_reps s) \<le> k" "k - length (all_reps s) < length new" by auto
  then have "(all_reps s @ new) ! k = new ! (k - length (all_reps s))"
    by (simp add: nth_append)
  with k Addr_node assms(1) show ?thesis by auto
qed (use assms in simp_all)

lemma visit_cases:
  assumes "deref s p = Some r"
  shows "visit (s, all) p l d =
     (if visited r then Some (s, all)
      else Some (update_rep s p (\<lambda>r. r\<lparr>visited := True, last_r := l, len := d\<rparr>), all @ [p]))"
  using assms by (simp add: visit_def)

lemma expand_spec:
  assumes ok: "store_ok s" and vx: "valid s x" and vg: "valid s g"
    and av: "\<forall>q \<in> set all. valid s q" and di: "distinct all"
    and vc: "\<forall>q. valid s q \<longrightarrow> vis_at s q = (q \<in> set all)"
  shows "\<exists>s' all'. expand (s, all) x g l = Some (s', all') \<and> expand_post s all x g s' all'"
proof -
  from mul_spec [OF ok vx vg] obtain p s1
    where m: "mul s x g = Some (p, s1)" and mok: "mul_ok s x g p s1" by blast
  from mok obtain new where oks1: "store_ok s1" and vp: "valid s1 p"
    and dp: "den s1 p = pmul (den s x) (den s g)"
    and s1: "s1 = s\<lparr>all_reps := all_reps s @ new\<rparr>"
    and fresh: "\<forall>r \<in> set new. \<not> visited r \<and> len r = - 1"
    unfolding mul_ok_def by blast
  have fr: "valid s1 q \<and> den s1 q = den s q \<and> deref s1 q = deref s q" if "valid s q" for q
    using mul_ok_frame [OF mok that] .
  from valid_deref [OF vx] obtain rx where rx: "deref s x = Some rx" by blast
  with fr [OF vx] have rx1: "deref s1 x = Some rx" by simp
  from valid_deref [OF vp] obtain r where r: "deref s1 p = Some r" by blast
  have lenx: "len rx = len_at s x" using rx by (simp add: len_at_def)
  have vis1: "vis_at s1 q = (q \<in> set all)" if "valid s1 q" for q
  proof (cases "valid s q")
    case True
    with fr [OF True] vc show ?thesis by (simp add: vis_at_def)
  next
    case False
    from deref_new [OF that [unfolded s1] False] fresh have "\<not> vis_at s1 q"
      by (auto simp: vis_at_def s1)
    moreover from False av have "q \<notin> set all" by blast
    ultimately show ?thesis by simp
  qed
  have len1: "len_at s1 q = len_at s q" if "q \<in> set all" for q
    using fr [of q] av that by (simp add: len_at_def)
  have av1: "\<forall>q \<in> set all. valid s1 q" using av fr by blast
  have ex: "expand (s, all) x g l = visit (s1, all) p l (len_at s x + 1)"
    using m rx1 lenx by (simp add: expand_def)
  show ?thesis
  proof (cases "visited r")
    case True
    with r have "vis_at s1 p" by (simp add: vis_at_def)
    with vis1 [OF vp] have pin: "p \<in> set all" by simp
    from True r have v: "visit (s1, all) p l (len_at s x + 1) = Some (s1, all)"
      by (simp add: visit_cases)
    have "expand_post s all x g s1 all"
      unfolding expand_post_def
      using oks1 fr len1 vis1 av1 di vp dp pin by blast
    with ex v show ?thesis by simp
  next
    case False
    with r have "\<not> vis_at s1 p" by (simp add: vis_at_def)
    with vis1 [OF vp] have pnin: "p \<notin> set all" by simp
    define F where "F = (\<lambda>r :: rep. r\<lparr>visited := True, last_r := l, len := len_at s x + 1\<rparr>)"
    define s2 where "s2 = update_rep s1 p F"
    have t: "tie (F r) = tie r" for r by (simp add: F_def tie_def)
    note u = update_rep_ok [of F s1 p, OF t, folded s2_def]
    have d2: "deref s2 q = (if q = p then Some (F r) else deref s1 q)" for q
      using deref_update_rep [OF vp, of F q] r by (simp add: s2_def)
    from False r have v: "visit (s1, all) p l (len_at s x + 1) = Some (s2, all @ [p])"
      by (simp add: visit_cases s2_def F_def)
    have oks2: "store_ok s2" using u(1) oks1 by simp
    have fr2: "\<forall>q. valid s q \<longrightarrow> valid s2 q \<and> den s2 q = den s q"
      using fr u(2,3) by simp
    have len2: "\<forall>q \<in> set all. len_at s2 q = len_at s q"
      using len1 pnin d2 by (auto simp: len_at_def)
    have vis2: "\<forall>q. valid s2 q \<longrightarrow> vis_at s2 q = (q \<in> set (all @ [p]))"
    proof (intro allI impI)
      fix q assume "valid s2 q"
      then have vq: "valid s1 q" using u(3) by simp
      show "vis_at s2 q = (q \<in> set (all @ [p]))"
      proof (cases "q = p")
        case True
        then show ?thesis using d2 [of p] by (simp add: vis_at_def F_def)
      next
        case False
        with d2 [of q] vis1 [OF vq] show ?thesis by (simp add: vis_at_def)
      qed
    qed
    have av2: "\<forall>q \<in> set (all @ [p]). valid s2 q"
      using av1 vp u(3) by simp
    have di2: "distinct (all @ [p])" using di pnin by simp
    have lp: "len_at s2 p = len_at s x + 1"
      using d2 [of p] by (simp add: len_at_def F_def)
    have vp2: "valid s2 p" using vp u(3) by simp
    have dp2: "den s2 p = pmul (den s x) (den s g)" using dp u(2) by simp
    have "expand_post s all x g s2 (all @ [p])"
      unfolding expand_post_def
      using oks2 fr2 len2 vis2 av2 di2 vp2 dp2 pnin lp by blast
    with ex v show ?thesis by simp
  qed
qed

subsection \<open>The invariant of the traversal\<close>

text \<open>
  \<open>done_edge ac ca i gs j g\<close>: the loop has multiplied the \<open>j\<close>-th entry of \<^verbatim>\<open>all\<close> by
  the generator \<open>g\<close>, when the entries before \<open>i\<close> are processed and the \<open>i\<close>-th has been
  multiplied by the generators \<open>gs\<close>. The invariant: the store is well formed; \<^verbatim>\<open>all\<close>
  lists the visited representatives, each once, the identity first with distance 0; the
  distances along \<^verbatim>\<open>all\<close> do not decrease and exceed that of the entry in process by one
  at most; the product of every done edge is in \<^verbatim>\<open>all\<close>, at most one further than its
  source; and every entry but the first is the product of a done edge, one further than the
  source.
\<close>

definition done_edge :: "prep \<Rightarrow> prep \<Rightarrow> nat \<Rightarrow> prep list \<Rightarrow> nat \<Rightarrow> prep \<Rightarrow> bool" where
  "done_edge ac ca i gs j g = ((g = Addr_b \<or> g = ac \<or> g = ca) \<and> (j < i \<or> j = i \<and> g \<in> set gs))"

definition bfs_inv :: "prep \<Rightarrow> prep \<Rightarrow> nat \<Rightarrow> prep list \<Rightarrow> state \<times> prep list \<Rightarrow> bool" where
  "bfs_inv ac ca i gs st =
     (case st of (s, all) \<Rightarrow>
        store_ok s \<and> valid s ac \<and> valid s ca \<and>
        distinct all \<and> (\<forall>q \<in> set all. valid s q) \<and>
        (\<forall>q. valid s q \<longrightarrow> vis_at s q = (q \<in> set all)) \<and>
        all \<noteq> [] \<and> all ! 0 = Addr_I \<and> len_at s Addr_I = 0 \<and>
        sorted (map (len_at s) all) \<and> i \<le> length all \<and>
        (i < length all \<longrightarrow> (\<forall>y \<in> set all. len_at s y \<le> len_at s (all ! i) + 1)) \<and>
        (\<forall>j g. done_edge ac ca i gs j g \<longrightarrow>
           (\<exists>y \<in> set all. den s y = pmul (den s (all ! j)) (den s g) \<and>
              len_at s y \<le> len_at s (all ! j) + 1)) \<and>
        (\<forall>k. 0 < k \<and> k < length all \<longrightarrow>
           (\<exists>j g. done_edge ac ca i gs j g \<and>
              den s (all ! k) = pmul (den s (all ! j)) (den s g) \<and>
              len_at s (all ! k) = len_at s (all ! j) + 1)))"

lemma bfs_inv_step:
  assumes inv: "bfs_inv ac ca i gs (s, all)" and i: "i < length all"
    and g: "g = Addr_b \<or> g = ac \<or> g = ca"
  shows "\<exists>st'. expand (s, all) (all ! i) g l = Some st' \<and> bfs_inv ac ca i (g # gs) st' \<and>
           snd st' ! i = all ! i \<and> i < length (snd st')"
proof -
  let ?x = "all ! i"
  from inv have ok: "store_ok s" and vac: "valid s ac" and vca: "valid s ca"
    and di: "distinct all" and av: "\<forall>q \<in> set all. valid s q"
    and vc: "\<forall>q. valid s q \<longrightarrow> vis_at s q = (q \<in> set all)"
    and ne: "all \<noteq> []" and hd: "all ! 0 = Addr_I" and l0: "len_at s Addr_I = 0"
    and so: "sorted (map (len_at s) all)"
    and bd: "\<forall>y \<in> set all. len_at s y \<le> len_at s ?x + 1"
    and fw: "\<And>j g. done_edge ac ca i gs j g \<Longrightarrow>
           \<exists>y \<in> set all. den s y = pmul (den s (all ! j)) (den s g) \<and>
              len_at s y \<le> len_at s (all ! j) + 1"
    and pa: "\<And>k. 0 < k \<Longrightarrow> k < length all \<Longrightarrow>
           \<exists>j g. done_edge ac ca i gs j g \<and>
              den s (all ! k) = pmul (den s (all ! j)) (den s g) \<and>
              len_at s (all ! k) = len_at s (all ! j) + 1"
    using i unfolding bfs_inv_def prod.case by blast+
  from i have xin: "?x \<in> set all" by simp
  with av have vx: "valid s ?x" by blast
  from g vac vca have vg: "valid s g" by auto
  from expand_spec [OF ok vx vg av di vc, of l] obtain s' all'
    where ex: "expand (s, all) ?x g l = Some (s', all')" and post: "expand_post s all ?x g s' all'"
    by blast
  from post obtain p where ok': "store_ok s'"
    and fr: "\<And>q. valid s q \<Longrightarrow> valid s' q \<and> den s' q = den s q"
    and ln: "\<And>q. q \<in> set all \<Longrightarrow> len_at s' q = len_at s q"
    and vc': "\<forall>q. valid s' q \<longrightarrow> vis_at s' q = (q \<in> set all')"
    and av': "\<forall>q \<in> set all'. valid s' q" and di': "distinct all'"
    and vp: "valid s' p" and dp: "den s' p = pmul (den s ?x) (den s g)"
    and alt: "all' = all \<and> p \<in> set all \<or>
              all' = all @ [p] \<and> p \<notin> set all \<and> len_at s' p = len_at s ?x + 1"
    unfolding expand_post_def by blast
  have nth': "all' ! j = all ! j" if "j < length all" for j
    using alt that by (auto simp: nth_append)
  have sub: "set all \<subseteq> set all'" using alt by auto
  have len': "length all \<le> length all'" using alt by auto
  have dall: "den s' q = den s q" if "q \<in> set all" for q
    using fr av that by blast
  have dgen: "den s' h = den s h" if "h = Addr_b \<or> h = ac \<or> h = ca" for h
    using that fr [OF vac] fr [OF vca] by auto
  have Iin: "Addr_I \<in> set all" using ne hd by (metis length_greater_0_conv nth_mem)
  have pl: "len_at s' p \<le> len_at s ?x + 1"
  proof (cases "p \<in> set all")
    case True
    with ln [OF True] bd show ?thesis by simp
  next
    case False
    with alt show ?thesis by simp
  qed
  have pin: "p \<in> set all'" using alt by auto
  have maps: "map (len_at s') all = map (len_at s) all"
    using ln by (simp cong: map_cong)
  have so': "sorted (map (len_at s') all')"
  proof (cases "all' = all")
    case True
    show ?thesis by (simp only: True maps so)
  next
    case False
    with alt have a: "all' = all @ [p]" and lp: "len_at s' p = len_at s ?x + 1" by simp_all
    from bd lp have "\<forall>y \<in> set all. len_at s y \<le> len_at s' p" by simp
    with so have "sorted (map (len_at s) all @ [len_at s' p])"
      by (simp add: sorted_append)
    then show ?thesis by (simp only: a map_append maps list.map)
  qed
  have bd': "\<forall>y \<in> set all'. len_at s' y \<le> len_at s' (all' ! i) + 1"
  proof
    fix y assume y: "y \<in> set all'"
    have xi: "len_at s' (all' ! i) = len_at s ?x" using nth' [OF i] ln [OF xin] by simp
    show "len_at s' y \<le> len_at s' (all' ! i) + 1"
    proof (cases "y \<in> set all")
      case True
      with ln [OF True] bd xi show ?thesis by simp
    next
      case False
      with y alt have "y = p" by auto
      with pl xi show ?thesis by simp
    qed
  qed
  have fw': "\<exists>y \<in> set all'. den s' y = pmul (den s' (all' ! j)) (den s' h) \<and>
              len_at s' y \<le> len_at s' (all' ! j) + 1"
    if d: "done_edge ac ca i (g # gs) j h" for j h
  proof -
    from d have h: "h = Addr_b \<or> h = ac \<or> h = ca" and j: "j \<le> i"
      by (auto simp: done_edge_def)
    from j i have jl: "j < length all" by simp
    then have jin: "all ! j \<in> set all" by simp
    note tr = nth' [OF jl] dall [OF jin] ln [OF jin] dgen [OF h]
    show ?thesis
    proof (cases "done_edge ac ca i gs j h")
      case True
      from fw [OF True] obtain y where y: "y \<in> set all"
        "den s y = pmul (den s (all ! j)) (den s h)" "len_at s y \<le> len_at s (all ! j) + 1"
        by blast
      from y(1) sub have "y \<in> set all'" by blast
      moreover have "den s' y = pmul (den s' (all' ! j)) (den s' h)"
        using y(2) dall [OF y(1)] tr by simp
      moreover have "len_at s' y \<le> len_at s' (all' ! j) + 1"
        using y(3) ln [OF y(1)] tr by simp
      ultimately show ?thesis by blast
    next
      case False
      with d have e: "j = i" "h = g" by (auto simp: done_edge_def)
      have "den s' p = pmul (den s' (all' ! j)) (den s' h)"
        using dp tr e by simp
      moreover have "len_at s' p \<le> len_at s' (all' ! j) + 1"
        using pl tr e by simp
      ultimately show ?thesis using pin by blast
    qed
  qed
  have mono: "done_edge ac ca i (g # gs) j h" if "done_edge ac ca i gs j h" for j h
    using that by (auto simp: done_edge_def)
  have pa': "\<exists>j h. done_edge ac ca i (g # gs) j h \<and>
              den s' (all' ! k) = pmul (den s' (all' ! j)) (den s' h) \<and>
              len_at s' (all' ! k) = len_at s' (all' ! j) + 1"
    if k: "0 < k" "k < length all'" for k
  proof (cases "k < length all")
    case True
    from pa [OF k(1) True] obtain j h where d: "done_edge ac ca i gs j h"
      and e: "den s (all ! k) = pmul (den s (all ! j)) (den s h)"
        "len_at s (all ! k) = len_at s (all ! j) + 1" by blast
    from d have h: "h = Addr_b \<or> h = ac \<or> h = ca" and j: "j \<le> i"
      by (auto simp: done_edge_def)
    from j i have jl: "j < length all" by simp
    then have jin: "all ! j \<in> set all" by simp
    from True have kin: "all ! k \<in> set all" by simp
    have "den s' (all' ! k) = pmul (den s' (all' ! j)) (den s' h)"
      using e(1) nth' [OF jl] nth' [OF True] dall [OF jin] dall [OF kin] dgen [OF h] by simp
    moreover have "len_at s' (all' ! k) = len_at s' (all' ! j) + 1"
      using e(2) nth' [OF jl] nth' [OF True] ln [OF jin] ln [OF kin] by simp
    ultimately show ?thesis using mono [OF d] by blast
  next
    case False
    with k alt have a: "all' = all @ [p]" "k = length all"
      and lp: "len_at s' p = len_at s ?x + 1" by auto
    have kp: "all' ! k = p" by (simp add: a)
    have d: "done_edge ac ca i (g # gs) i g" using g by (simp add: done_edge_def)
    have "den s' (all' ! k) = pmul (den s' (all' ! i)) (den s' g)"
      using kp dp nth' [OF i] dall [OF xin] dgen [OF g] by simp
    moreover have "len_at s' (all' ! k) = len_at s' (all' ! i) + 1"
      using kp lp nth' [OF i] ln [OF xin] by simp
    ultimately show ?thesis using d by blast
  qed
  have base: "store_ok s'" "valid s' ac" "valid s' ca" "all' \<noteq> []" "all' ! 0 = Addr_I"
    "len_at s' Addr_I = 0" "i \<le> length all'"
    using ok' fr [OF vac] fr [OF vca] ne alt hd l0 ln [OF Iin] i len' nth' [of 0]
    by auto
  have "bfs_inv ac ca i (g # gs) (s', all')"
    unfolding bfs_inv_def prod.case
    using base di' av' vc' so' bd' fw' pa' by blast
  moreover have "snd (s', all') ! i = all ! i" "i < length (snd (s', all'))"
    using nth' [OF i] i len' by simp_all
  ultimately show ?thesis using ex by blast
qed

lemma done_edge_advance:
  "done_edge ac ca (Suc i) [] j g = done_edge ac ca i [ca, ac, Addr_b] j g"
  by (auto simp: done_edge_def)

lemma bfs_inv_advance:
  assumes inv: "bfs_inv ac ca i [ca, ac, Addr_b] (s, all)" and i: "i < length all"
  shows "bfs_inv ac ca (Suc i) [] (s, all)"
proof -
  from inv i have so: "sorted (map (len_at s) all)"
    and bd: "\<forall>y \<in> set all. len_at s y \<le> len_at s (all ! i) + 1"
    unfolding bfs_inv_def prod.case by blast+
  have bd': "Suc i < length all \<longrightarrow> (\<forall>y \<in> set all. len_at s y \<le> len_at s (all ! Suc i) + 1)"
  proof (intro impI ballI)
    fix y assume si: "Suc i < length all" and y: "y \<in> set all"
    from so si have "map (len_at s) all ! i \<le> map (len_at s) all ! Suc i"
      by (intro sorted_nth_mono) simp_all
    with si have "len_at s (all ! i) \<le> len_at s (all ! Suc i)" by simp
    with bd y show "len_at s y \<le> len_at s (all ! Suc i) + 1" by fastforce
  qed
  from i have le: "Suc i \<le> length all" by simp
  from inv show ?thesis
    unfolding bfs_inv_def prod.case done_edge_advance
    using bd' le by blast
qed

lemma prepare_loop_inv:
  "bfs_inv ac ca i [] st \<Longrightarrow> prepare_loop ac ca n i st = Some st' \<Longrightarrow>
     bfs_inv ac ca (i + n) [] st'"
proof (induction n arbitrary: i st)
  case 0
  then show ?case by simp
next
  case (Suc n)
  obtain s all where st: "st = (s, all)" by (cases st) auto
  from Suc.prems(2) have i: "i < length all"
    by (simp add: st split: if_splits)
  from bfs_inv_step [OF Suc.prems(1) [unfolded st] i, of Addr_b ch_b] obtain s1 all1
    where e1: "expand (s, all) (all ! i) Addr_b ch_b = Some (s1, all1)"
      and i1: "bfs_inv ac ca i [Addr_b] (s1, all1)" and n1: "all1 ! i = all ! i" "i < length all1"
    by auto
  from bfs_inv_step [OF i1 n1(2), of ac "0x41"] n1(1) obtain s2 all2
    where e2: "expand (s1, all1) (all ! i) ac 0x41 = Some (s2, all2)"
      and i2: "bfs_inv ac ca i [ac, Addr_b] (s2, all2)" and n2: "all2 ! i = all ! i" "i < length all2"
    by auto
  from bfs_inv_step [OF i2 n2(2), of ca "0x43"] n2(1) obtain s3 all3
    where e3: "expand (s2, all2) (all ! i) ca 0x43 = Some (s3, all3)"
      and i3: "bfs_inv ac ca i [ca, ac, Addr_b] (s3, all3)" and n3: "i < length all3"
    by auto
  from Suc.prems(2) i e1 e2 e3 have "prepare_loop ac ca n (Suc i) (s3, all3) = Some st'"
    by (simp add: st)
  from Suc.IH [OF bfs_inv_advance [OF i3 n3] this] show ?case by simp
qed

lemma prepare_start:
  assumes ok: "store_ok s0" and nv: "\<forall>q. valid s0 q \<longrightarrow> \<not> vis_at s0 q"
  shows "\<exists>ac s1 ca s2 st. mul s0 Addr_a Addr_c = Some (ac, s1) \<and> mul s1 Addr_c Addr_a = Some (ca, s2) \<and>
           visit (s2, []) Addr_I 0 0 = Some st \<and> bfs_inv ac ca 0 [] st \<and>
           den (fst st) ac = pmul EA EC \<and> den (fst st) ca = pmul EC EA"
proof -
  have va: "valid t Addr_a" "valid t Addr_c" "valid t Addr_I" for t by simp_all
  from mul_spec [OF ok va(1,2)] obtain ac s1
    where m1: "mul s0 Addr_a Addr_c = Some (ac, s1)" and ok1: "mul_ok s0 Addr_a Addr_c ac s1" by blast
  from ok1 obtain n1 where oks1: "store_ok s1" and vac1: "valid s1 ac"
    and s1: "s1 = s0\<lparr>all_reps := all_reps s0 @ n1\<rparr>"
    and f1: "\<forall>r \<in> set n1. \<not> visited r \<and> len r = - 1"
    unfolding mul_ok_def by blast
  from mul_spec [OF oks1 va(2,1)] obtain ca s2
    where m2: "mul s1 Addr_c Addr_a = Some (ca, s2)" and ok2: "mul_ok s1 Addr_c Addr_a ca s2" by blast
  from ok2 obtain n2 where oks2: "store_ok s2" and vca: "valid s2 ca"
    and s2: "s2 = s1\<lparr>all_reps := all_reps s1 @ n2\<rparr>"
    and f2: "\<forall>r \<in> set n2. \<not> visited r \<and> len r = - 1"
    unfolding mul_ok_def by blast
  from mul_ok_frame [OF ok2 vac1] have vac: "valid s2 ac" by simp
  have nv1: "\<not> vis_at s1 q" if v: "valid s1 q" for q
  proof (cases "valid s0 q")
    case True
    with mul_ok_frame [OF ok1 True] nv show ?thesis by (simp add: vis_at_def)
  next
    case False
    from deref_new [OF v [unfolded s1] False] f1 show ?thesis
      by (auto simp: vis_at_def s1)
  qed
  have nv2: "\<not> vis_at s2 q" if v: "valid s2 q" for q
  proof (cases "valid s1 q")
    case True
    with mul_ok_frame [OF ok2 True] nv1 show ?thesis by (simp add: vis_at_def)
  next
    case False
    from deref_new [OF v [unfolded s2] False] f2 show ?thesis
      by (auto simp: vis_at_def s2)
  qed
  define F where "F = (\<lambda>r :: rep. r\<lparr>visited := True, last_r := 0, len := 0\<rparr>)"
  define s3 where "s3 = update_rep s2 Addr_I F"
  have t: "tie (F r) = tie r" for r by (simp add: F_def tie_def)
  note u = update_rep_ok [of F s2 Addr_I, OF t, folded s3_def]
  have d3: "deref s3 q = (if q = Addr_I then Some (F (grig_I s2)) else deref s2 q)" for q
    using deref_update_rep [OF va(3), of s2 F q] by (simp add: s3_def)
  from nv2 [of Addr_I] have "\<not> visited (grig_I s2)" by (simp add: vis_at_def)
  then have v: "visit (s2, []) Addr_I 0 0 = Some (s3, [Addr_I])"
    by (simp add: visit_def s3_def F_def)
  have vis3: "\<forall>q. valid s3 q \<longrightarrow> vis_at s3 q = (q \<in> set [Addr_I])"
  proof (intro allI impI)
    fix q assume "valid s3 q"
    then have vq: "valid s2 q" using u(3) by simp
    show "vis_at s3 q = (q \<in> set [Addr_I])"
    proof (cases "q = Addr_I")
      case True
      then show ?thesis using d3 [of Addr_I] by (simp add: vis_at_def F_def)
    next
      case False
      with d3 [of q] nv2 [OF vq] show ?thesis by (simp add: vis_at_def)
    qed
  qed
  have l3: "len_at s3 Addr_I = 0" using d3 [of Addr_I] by (simp add: len_at_def F_def)
  have nd: "\<not> done_edge ac ca 0 [] j g" for j g by (simp add: done_edge_def)
  have inv: "bfs_inv ac ca 0 [] (s3, [Addr_I])"
    unfolding bfs_inv_def prod.case
    using oks2 vac vca u vis3 l3 nd by auto
  from ok1 have "den s1 ac = pmul EA EC" by (simp add: mul_ok_def)
  with mul_ok_frame [OF ok2 vac1] have dac: "den (fst (s3, [Addr_I])) ac = pmul EA EC"
    by (simp add: u(2))
  from ok2 have dca: "den (fst (s3, [Addr_I])) ca = pmul EC EA"
    by (simp add: mul_ok_def u(2))
  from m1 m2 v inv dac dca show ?thesis by blast
qed

lemma prepare_inv:
  assumes ok: "store_ok s0" and nv: "\<forall>q. valid s0 q \<longrightarrow> \<not> vis_at s0 q"
    and p: "prepare grig_limit s0 = Some (ac, ca, s, all)"
  shows "bfs_inv ac ca (nat grig_limit) [] (s, all)"
proof -
  from prepare_start [OF ok nv] obtain ac' s1 ca' s2 st
    where m: "mul s0 Addr_a Addr_c = Some (ac', s1)" "mul s1 Addr_c Addr_a = Some (ca', s2)"
      "visit (s2, []) Addr_I 0 0 = Some st" and inv: "bfs_inv ac' ca' 0 [] st" by blast
  from p m have "prepare_loop ac' ca' (nat grig_limit) 0 st = Some (s, all)" "ac' = ac" "ca' = ca"
    by (auto simp: prepare_def split: Option.bind_splits)
  with prepare_loop_inv [OF inv, of "nat grig_limit" "(s, all)"] show ?thesis by simp
qed

text \<open>
  The loop never reads \<^verbatim>\<open>all\<close> beyond its end: were every entry processed, the values
  of the entries would be a finite set that contains the identity and is closed under
  multiplication by b, ac and ca.
\<close>

lemma expand_frame:
  assumes inv: "bfs_inv ac ca i gs (s, all)" and i: "i < length all"
    and g: "g = Addr_b \<or> g = ac \<or> g = ca"
    and e: "expand (s, all) (all ! i) g l = Some (s', all')"
  shows "den s' ac = den s ac" "den s' ca = den s ca"
proof -
  from inv have ok: "store_ok s" and vac: "valid s ac" and vca: "valid s ca"
    and di: "distinct all" and av: "\<forall>q \<in> set all. valid s q"
    and vc: "\<forall>q. valid s q \<longrightarrow> vis_at s q = (q \<in> set all)"
    unfolding bfs_inv_def prod.case by blast+
  from i av have vx: "valid s (all ! i)" by simp
  from g vac vca have vg: "valid s g" by auto
  from expand_spec [OF ok vx vg av di vc, of l] e
  have "expand_post s all (all ! i) g s' all'" by auto
  then have fr: "\<And>q. valid s q \<Longrightarrow> valid s' q \<and> den s' q = den s q"
    unfolding expand_post_def by blast
  from fr [OF vac] show "den s' ac = den s ac" by simp
  from fr [OF vca] show "den s' ca = den s ca" by simp
qed

lemma bfs_not_stuck:
  assumes inv: "bfs_inv ac ca i [] (s, all)"
    and dac: "den s ac = pmul EA EC" and dca: "den s ca = pmul EC EA"
  shows "i < length all"
proof (rule ccontr)
  assume n: "\<not> i < length all"
  from inv have ne: "all \<noteq> []" and hd: "all ! 0 = Addr_I" and le: "i \<le> length all"
    and fw: "\<And>j g. done_edge ac ca i [] j g \<Longrightarrow>
           \<exists>y \<in> set all. den s y = pmul (den s (all ! j)) (den s g) \<and>
              len_at s y \<le> len_at s (all ! j) + 1"
    unfolding bfs_inv_def prod.case by blast+
  from n le have il: "i = length all" by simp
  define D where "D = den s ` set all"
  have fin: "finite D" by (simp add: D_def)
  from ne hd have "Addr_I \<in> set all" by (metis length_greater_0_conv nth_mem)
  then have "den s Addr_I \<in> D" unfolding D_def by (rule imageI)
  then have I: "EI \<in> D" by simp
  have gp: "\<exists>p. (p = Addr_b \<or> p = ac \<or> p = ca) \<and> den s p = hval g" for g
  proof (cases g)
    case GB
    have "den s Addr_b = hval GB" by simp
    with GB show ?thesis by blast
  next
    case GAC
    with dac have "den s ac = hval g" by simp
    then show ?thesis by blast
  next
    case GCA
    with dca have "den s ca = hval g" by simp
    then show ?thesis by blast
  qed
  have cl: "pmul x (hval g) \<in> D" if "x \<in> D" for x g
  proof -
    from that obtain q where q: "q \<in> set all" "x = den s q" unfolding D_def by blast
    from q(1) obtain j where j: "j < length all" "all ! j = q" by (auto simp: in_set_conv_nth)
    from gp obtain p where p: "p = Addr_b \<or> p = ac \<or> p = ca" "den s p = hval g" by blast
    from p(1) j(1) il have "done_edge ac ca i [] j p" by (simp add: done_edge_def)
    from fw [OF this] obtain y where y: "y \<in> set all"
      "den s y = pmul (den s (all ! j)) (den s p)" by blast
    from y(2) j(2) q(2) p(2) have "pmul x (hval g) = den s y" by simp
    then show ?thesis unfolding D_def using y(1) by (rule image_eqI)
  qed
  from closed_infinite [OF I cl] fin show False by simp
qed

lemma prepare_loop_total:
  "bfs_inv ac ca i [] st \<Longrightarrow> den (fst st) ac = pmul EA EC \<Longrightarrow> den (fst st) ca = pmul EC EA \<Longrightarrow>
     \<exists>st'. prepare_loop ac ca n i st = Some st' \<and> bfs_inv ac ca (i + n) [] st' \<and>
       den (fst st') ac = pmul EA EC \<and> den (fst st') ca = pmul EC EA"
proof (induction n arbitrary: i st)
  case 0
  then show ?case by simp
next
  case (Suc n)
  obtain s all where st: "st = (s, all)" by (cases st) auto
  from Suc.prems have inv: "bfs_inv ac ca i [] (s, all)"
    and d: "den s ac = pmul EA EC" "den s ca = pmul EC EA" by (simp_all add: st)
  from bfs_not_stuck [OF inv d] have i: "i < length all" .
  from bfs_inv_step [OF inv i, of Addr_b ch_b] obtain s1 all1
    where e1: "expand (s, all) (all ! i) Addr_b ch_b = Some (s1, all1)"
      and i1: "bfs_inv ac ca i [Addr_b] (s1, all1)" and n1: "all1 ! i = all ! i" "i < length all1"
    by auto
  from expand_frame [OF inv i _ e1] d
  have d1: "den s1 ac = pmul EA EC" "den s1 ca = pmul EC EA" by simp_all
  from bfs_inv_step [OF i1 n1(2), of ac "0x41"] obtain s2 all2
    where e2: "expand (s1, all1) (all1 ! i) ac 0x41 = Some (s2, all2)"
      and i2: "bfs_inv ac ca i [ac, Addr_b] (s2, all2)" and n2: "all2 ! i = all1 ! i" "i < length all2"
    by auto
  from expand_frame [OF i1 n1(2) _ e2] d1
  have d2: "den s2 ac = pmul EA EC" "den s2 ca = pmul EC EA" by simp_all
  from bfs_inv_step [OF i2 n2(2), of ca "0x43"] obtain s3 all3
    where e3: "expand (s2, all2) (all2 ! i) ca 0x43 = Some (s3, all3)"
      and i3: "bfs_inv ac ca i [ca, ac, Addr_b] (s3, all3)" and n3: "i < length all3"
    by auto
  from expand_frame [OF i2 n2(2) _ e3] d2
  have d3: "den (fst (s3, all3)) ac = pmul EA EC" "den (fst (s3, all3)) ca = pmul EC EA"
    by simp_all
  from i e1 e2 e3 n1(1) n2(1)
  have "prepare_loop ac ca (Suc n) i st = prepare_loop ac ca n (Suc i) (s3, all3)"
    by (simp add: st)
  with Suc.IH [OF bfs_inv_advance [OF i3 n3] d3] show ?case by simp
qed

lemma prepare_total:
  assumes ok: "store_ok s0" and nv: "\<forall>q. valid s0 q \<longrightarrow> \<not> vis_at s0 q"
  shows "\<exists>ac ca s all. prepare grig_limit s0 = Some (ac, ca, s, all) \<and>
           nat grig_limit < length all"
proof -
  from prepare_start [OF ok nv] obtain ac s1 ca s2 st
    where m: "mul s0 Addr_a Addr_c = Some (ac, s1)" "mul s1 Addr_c Addr_a = Some (ca, s2)"
      "visit (s2, []) Addr_I 0 0 = Some st" and inv: "bfs_inv ac ca 0 [] st"
      and d: "den (fst st) ac = pmul EA EC" "den (fst st) ca = pmul EC EA" by blast
  from prepare_loop_total [OF inv d, of "nat grig_limit"] obtain st'
    where l: "prepare_loop ac ca (nat grig_limit) 0 st = Some st'"
      and inv': "bfs_inv ac ca (0 + nat grig_limit) [] st'"
      and d': "den (fst st') ac = pmul EA EC" "den (fst st') ca = pmul EC EA" by blast
  obtain s all where st': "st' = (s, all)" by (cases st') auto
  with m l have "prepare grig_limit s0 = Some (ac, ca, s, all)" by (simp add: prepare_def)
  moreover from bfs_not_stuck [of ac ca "nat grig_limit" s all] inv' d' st'
  have "nat grig_limit < length all" by simp
  ultimately show ?thesis by blast
qed

lemma init_unvisited: "\<forall>q. valid init_state q \<longrightarrow> \<not> vis_at init_state q"
proof (intro allI impI)
  fix q assume "valid init_state q"
  then show "\<not> vis_at init_state q"
    by (cases q) (simp_all add: vis_at_def init_state_def mk_rep_def)
qed

subsection \<open>Distances of the traversal\<close>

text \<open>
  \<open>reaches s ac ca q x\<close>: multiplying \<open>q\<close> by b, by ac or by ca gives \<open>x\<close>.
\<close>

definition reaches :: "state \<Rightarrow> prep \<Rightarrow> prep \<Rightarrow> prep \<Rightarrow> prep \<Rightarrow> bool" where
  "reaches s ac ca q x =
     (map_option fst (mul s q Addr_b) = Some x \<or>
      map_option fst (mul s q ac) = Some x \<or>
      map_option fst (mul s q ca) = Some x)"

lemma mul_result_den:
  assumes ok: "store_ok s" and v: "valid s q" "valid s g" "valid s x"
  shows "(map_option fst (mul s q g) = Some x) = (den s x = pmul (den s q) (den s g))"
proof
  assume a: "map_option fst (mul s q g) = Some x"
  from mul_spec [OF ok v(1,2)] obtain p s'
    where m: "mul s q g = Some (p, s')" and mok: "mul_ok s q g p s'" by blast
  from a m have "p = x" by simp
  with mok have "den s' x = pmul (den s q) (den s g)" by (simp add: mul_ok_def)
  with mul_ok_frame [OF mok v(3)] show "den s x = pmul (den s q) (den s g)" by simp
next
  assume "den s x = pmul (den s q) (den s g)"
  from mul_known [OF ok v(1,2,3) this] show "map_option fst (mul s q g) = Some x" by simp
qed

text \<open>
  Claim C8, as the code has it. For every limit the traversal of \<open>prepare\<close> on the initial
  store returns, having processed \<^verbatim>\<open>grig_limit\<close> entries of \<^verbatim>\<open>all\<close>; the identity is the
  first discovered representative and has distance 0; the distances do not decrease in the
  order of discovery; and every discovered representative other than the identity is
  reached from a processed representative (one of the first \<^verbatim>\<open>grig_limit\<close> entries of
  \<^verbatim>\<open>all\<close>) by b, ac or ca whose distance is one less, and from no processed
  representative whose distance is smaller than that: its distance is one plus the least
  distance among the processed representatives that reach it.
\<close>

theorem prepare_bfs_distances:
  "\<exists>ac ca s all. prepare grig_limit init_state = Some (ac, ca, s, all) \<and>
     nat grig_limit < length all \<and>
     all ! 0 = Addr_I \<and> len_at s Addr_I = 0 \<and> sorted (map (len_at s) all) \<and>
     (\<forall>k. 0 < k \<and> k < length all \<longrightarrow>
        (\<exists>j < nat grig_limit. reaches s ac ca (all ! j) (all ! k) \<and>
           len_at s (all ! k) = len_at s (all ! j) + 1) \<and>
        (\<forall>j < nat grig_limit. reaches s ac ca (all ! j) (all ! k) \<longrightarrow>
           len_at s (all ! k) \<le> len_at s (all ! j) + 1))"
proof -
  let ?n = "nat grig_limit"
  from prepare_total [OF store_ok_init init_unvisited, of grig_limit] obtain ac ca s all
    where p: "prepare grig_limit init_state = Some (ac, ca, s, all)"
      and more: "?n < length all" by blast
  from prepare_inv [OF store_ok_init init_unvisited p]
  have inv: "bfs_inv ac ca ?n [] (s, all)" .
  then have ok: "store_ok s" and vac: "valid s ac" and vca: "valid s ca"
    and av: "\<forall>q \<in> set all. valid s q"
    and hd: "all ! 0 = Addr_I" and l0: "len_at s Addr_I = 0"
    and so: "sorted (map (len_at s) all)" and nl: "?n \<le> length all"
    and fw: "\<And>j g. done_edge ac ca ?n [] j g \<Longrightarrow>
           \<exists>y \<in> set all. den s y = pmul (den s (all ! j)) (den s g) \<and>
              len_at s y \<le> len_at s (all ! j) + 1"
    and pa: "\<And>k. 0 < k \<Longrightarrow> k < length all \<Longrightarrow>
           \<exists>j g. done_edge ac ca ?n [] j g \<and>
              den s (all ! k) = pmul (den s (all ! j)) (den s g) \<and>
              len_at s (all ! k) = len_at s (all ! j) + 1"
    unfolding bfs_inv_def prod.case by blast+
  have vg: "valid s g" if "g = Addr_b \<or> g = ac \<or> g = ca" for g
    using that vac vca by auto
  have vj: "valid s (all ! j)" if "j < length all" for j
    using av that by simp
  have r: "reaches s ac ca (all ! j) (all ! k) =
      (\<exists>g. (g = Addr_b \<or> g = ac \<or> g = ca) \<and> den s (all ! k) = pmul (den s (all ! j)) (den s g))"
    if "j < length all" "k < length all" for j k
    unfolding reaches_def
    using mul_result_den [OF ok vj [OF that(1)] vg vj [OF that(2)]] by auto
  have main: "(\<exists>j < ?n. reaches s ac ca (all ! j) (all ! k) \<and>
               len_at s (all ! k) = len_at s (all ! j) + 1) \<and>
            (\<forall>j < ?n. reaches s ac ca (all ! j) (all ! k) \<longrightarrow>
               len_at s (all ! k) \<le> len_at s (all ! j) + 1)"
    if k: "0 < k" "k < length all" for k
  proof
    from pa [OF k] obtain j g where d: "done_edge ac ca ?n [] j g"
      and e: "den s (all ! k) = pmul (den s (all ! j)) (den s g)"
        "len_at s (all ! k) = len_at s (all ! j) + 1" by blast
    from d have j: "j < ?n" and g: "g = Addr_b \<or> g = ac \<or> g = ca"
      by (auto simp: done_edge_def)
    from j nl have jl: "j < length all" by simp
    from r [OF jl k(2)] g e(1) have "reaches s ac ca (all ! j) (all ! k)" by blast
    with j e(2) show "\<exists>j < ?n. reaches s ac ca (all ! j) (all ! k) \<and>
               len_at s (all ! k) = len_at s (all ! j) + 1" by blast
  next
    show "\<forall>j < ?n. reaches s ac ca (all ! j) (all ! k) \<longrightarrow>
               len_at s (all ! k) \<le> len_at s (all ! j) + 1"
    proof (intro allI impI)
      fix j assume j: "j < ?n" and re: "reaches s ac ca (all ! j) (all ! k)"
      from j nl have jl: "j < length all" by simp
      from r [OF jl k(2)] re obtain g where g: "g = Addr_b \<or> g = ac \<or> g = ca"
        and e: "den s (all ! k) = pmul (den s (all ! j)) (den s g)" by blast
      from j g have "done_edge ac ca ?n [] j g" by (simp add: done_edge_def)
      from fw [OF this] obtain y where y: "y \<in> set all"
        "den s y = pmul (den s (all ! j)) (den s g)" "len_at s y \<le> len_at s (all ! j) + 1"
        by blast
      from y(1) av have "valid s y" by blast
      from den_inj [OF ok this vj [OF k(2)]] y(2) e have "y = all ! k" by simp
      with y(3) show "len_at s (all ! k) \<le> len_at s (all ! j) + 1" by simp
    qed
  qed
  have all_main: "\<forall>k. 0 < k \<and> k < length all \<longrightarrow>
        (\<exists>j < ?n. reaches s ac ca (all ! j) (all ! k) \<and>
           len_at s (all ! k) = len_at s (all ! j) + 1) \<and>
        (\<forall>j < ?n. reaches s ac ca (all ! j) (all ! k) \<longrightarrow>
           len_at s (all ! k) \<le> len_at s (all ! j) + 1)"
    using main by blast
  from p more hd l0 so all_main show ?thesis
    by (intro exI [of _ ac] exI [of _ ca] exI [of _ s] exI [of _ all] conjI)
qed

text \<open>The store after \<open>prepare\<close> with the limit 1.\<close>

definition state_1 :: state where
  "state_1 =
     init_state
       \<lparr>grig_I := (grig_I init_state)\<lparr>visited := True, len := 0\<rparr>,
        grig_b := (grig_b init_state)\<lparr>visited := True, len := 1\<rparr>,
        all_reps :=
          [(mk_rep True Addr_a Addr_d 0x41)\<lparr>visited := True, len := 1\<rparr>,
           (mk_rep True Addr_d Addr_a 0x43)\<lparr>visited := True, len := 1\<rparr>]\<rparr>"

lemma prepare_1:
  "prepare 1 init_state =
     Some (Addr_node 0, Addr_node 1, state_1, [Addr_I, Addr_b, Addr_node 0, Addr_node 1])"
  by code_simp

theorem prepare_bfs_distances_witness:
  "prepare 1 init_state =
     Some (Addr_node 0, Addr_node 1, state_1, [Addr_I, Addr_b, Addr_node 0, Addr_node 1]) \<and>
   len_at state_1 Addr_I = 0 \<and>
   sorted (map (len_at state_1) [Addr_I, Addr_b, Addr_node 0, Addr_node 1]) \<and>
   reaches state_1 (Addr_node 0) (Addr_node 1) Addr_I (Addr_node 0) \<and>
   len_at state_1 (Addr_node 0) = len_at state_1 Addr_I + 1"
proof -
  have "reaches state_1 (Addr_node 0) (Addr_node 1) Addr_I (Addr_node 0)" by code_simp
  moreover have "len_at state_1 (Addr_node 0) = len_at state_1 Addr_I + 1" by code_simp
  ultimately show ?thesis
    using prepare_bfs_distances [of 1] prepare_1 by simp
qed

text \<open>
  The claim as stated, for every discovered representative, fails for the identity. With
  the limit 2 the processed representatives are the identity and b, with the distances 0
  and 1; b reaches the identity (b times b) and the identity does not reach itself, so one
  plus the least distance of a processed representative that reaches the identity is 2,
  while the identity's distance is 0.
\<close>

theorem prepare_identity_counterexample:
  "map_option
     (\<lambda>(ac, ca, s, all).
        (all ! 0, len_at s (all ! 0), all ! 1, len_at s (all ! 1),
         reaches s ac ca (all ! 0) (all ! 0), reaches s ac ca (all ! 1) (all ! 0)))
     (prepare 2 init_state)
   = Some (Addr_I, 0, Addr_b, 1, False, True)"
  by code_simp

text \<open>
  Claim C5. For all representatives \<open>x\<close>, \<open>y\<close>, \<open>z\<close> that \<open>prepare\<close> discovered (whatever
  the limit), the two products \<open>mul (mul x y) z\<close> and \<open>mul x (mul y z)\<close>, computed one
  after the other on the store \<open>prepare\<close> left, both return, and return the same pointer.
\<close>

theorem mul_associative_discovered:
  assumes p: "prepare grig_limit init_state = Some (ac, ca, s, all)"
    and x: "x \<in> set all" and y: "y \<in> set all" and z: "z \<in> set all"
  shows "\<exists>xy s1 l s2 yz s3 r s4.
           mul s x y = Some (xy, s1) \<and> mul s1 xy z = Some (l, s2) \<and>
           mul s2 y z = Some (yz, s3) \<and> mul s3 x yz = Some (r, s4) \<and> l = r"
proof -
  from prepare_inv [OF store_ok_init init_unvisited p]
  have ok: "store_ok s" and av: "\<forall>q \<in> set all. valid s q"
    unfolding bfs_inv_def prod.case by blast+
  from av x y z have "valid s x" "valid s y" "valid s z" by blast+
  from mul_assoc_state [OF ok this] show ?thesis .
qed

theorem mul_associative_discovered_witness:
  "prepare 1 init_state =
     Some (Addr_node 0, Addr_node 1, state_1, [Addr_I, Addr_b, Addr_node 0, Addr_node 1]) \<and>
   Addr_b \<in> set [Addr_I, Addr_b, Addr_node 0, Addr_node 1] \<and>
   Addr_node 0 \<in> set [Addr_I, Addr_b, Addr_node 0, Addr_node 1] \<and>
   Addr_node 1 \<in> set [Addr_I, Addr_b, Addr_node 0, Addr_node 1] \<and>
   (\<exists>xy s1 l s2 yz s3 r s4.
      mul state_1 Addr_b (Addr_node 0) = Some (xy, s1) \<and> mul s1 xy (Addr_node 1) = Some (l, s2) \<and>
      mul s2 (Addr_node 0) (Addr_node 1) = Some (yz, s3) \<and> mul s3 Addr_b yz = Some (r, s4) \<and>
      l = r)"
  using mul_associative_discovered [OF prepare_1, of Addr_b "Addr_node 0" "Addr_node 1"] prepare_1
  by simp

end
